theory Spec2Isabelle
  imports Complex_Main "HOL-Library.Log_Nat" "HOL-Library.FSet" "HOL-Library.Multiset"
begin

chapter \<open>LeadsManager: grid model, sheet registry and lead scoring\<close>

text \<open>
  A shallow embedding of the TypeScript sources \<^verbatim>\<open>DataTable.tsx\<close> (grid model,
  selection and sort), \<^verbatim>\<open>LeadScoringModal\<close> (scoring engine) and \<^verbatim>\<open>App.tsx\<close>
  (sheet registry). React state is modelled by records; every handler is a function from
  the state it closes over to the state it sets. All definitions come first, the lemmas
  and theorems follow.
\<close>

section \<open>JavaScript numbers\<close>

text \<open>
  A JavaScript number is an IEEE 754 binary64 value. Finite values are modelled by the
  rationals they denote, and every arithmetic operation rounds its exact result to the
  nearest value with a 53 bit significand, ties to even (\<open>rd\<close>). The exponent range is
  not bounded in the model: it agrees with binary64 as long as results stay within the
  normal range (magnitude between \<open>2^-1022\<close> and \<open>2^1024\<close>), which holds for all
  quantities of this program (counts, weights and scores). Negative zero is identified
  with zero.
\<close>

definition ilog2 :: "rat \<Rightarrow> int" where
  "ilog2 x = (let (p, q) = quotient_of x;
                  l = bitlen p - bitlen q
              in if 2 powi l \<le> x then l else l - 1)"

definition roundHalfEven :: "rat \<Rightarrow> int" where
  "roundHalfEven y = (let f = \<lfloor>y\<rfloor>; d = y - of_int f
                      in if d < 1/2 then f
                         else if 1/2 < d then f + 1
                         else if even f then f else f + 1)"

definition rd :: "rat \<Rightarrow> rat" where
  "rd x = (if x = 0 then 0
           else let e = ilog2 \<bar>x\<bar> - 52
                in sgn x * of_int (roundHalfEven (\<bar>x\<bar> / 2 powi e)) * 2 powi e)"

definition jsAdd :: "rat \<Rightarrow> rat \<Rightarrow> rat" where
  "jsAdd a b = rd (a + b)"

definition jsSub :: "rat \<Rightarrow> rat \<Rightarrow> rat" where
  "jsSub a b = rd (a - b)"

definition jsMul :: "rat \<Rightarrow> rat \<Rightarrow> rat" where
  "jsMul a b = rd (a * b)"

text \<open>Every division of the program has a non-zero divisor (a guarded length, or 100).\<close>

definition jsDiv :: "rat \<Rightarrow> rat \<Rightarrow> rat" where
  "jsDiv a b = rd (a / b)"

definition jsMathFloor :: "rat \<Rightarrow> rat" where
  "jsMathFloor x = of_int \<lfloor>x\<rfloor>"

text \<open>\<^verbatim>\<open>Math.round\<close> returns the nearest integer, ties towards plus infinity.\<close>

definition jsMathRound :: "rat \<Rightarrow> rat" where
  "jsMathRound x = of_int \<lfloor>x + 1/2\<rfloor>"

text \<open>One plus, and one minus, the largest relative error of a rounding.\<close>

definition ulp1 :: rat where
  "ulp1 = 1 + 1 / 2 ^ 53"

definition ulp0 :: rat where
  "ulp0 = 1 - 1 / 2 ^ 53"

text \<open>
  Results of \<^verbatim>\<open>Number\<close>, \<^verbatim>\<open>parseFloat\<close> and of the sort comparator can also be
  \<^verbatim>\<open>NaN\<close> or infinite.
\<close>

datatype jsnum = NaN | NegInf | Fin rat | PosInf

fun isNaN :: "jsnum \<Rightarrow> bool" where
  "isNaN NaN = True"
| "isNaN _ = False"

text \<open>\<^verbatim>\<open>v || 0\<close>: \<^verbatim>\<open>NaN\<close> and zero are falsy.\<close>

fun orZero :: "jsnum \<Rightarrow> jsnum" where
  "orZero NaN = Fin 0"
| "orZero v = v"

fun jsnumSub :: "jsnum \<Rightarrow> jsnum \<Rightarrow> jsnum" where
  "jsnumSub NaN _ = NaN"
| "jsnumSub _ NaN = NaN"
| "jsnumSub (Fin a) (Fin b) = Fin (jsSub a b)"
| "jsnumSub PosInf PosInf = NaN"
| "jsnumSub NegInf NegInf = NaN"
| "jsnumSub PosInf _ = PosInf"
| "jsnumSub NegInf _ = NegInf"
| "jsnumSub (Fin a) PosInf = NegInf"
| "jsnumSub (Fin a) NegInf = PosInf"

fun isPositive :: "jsnum \<Rightarrow> bool" where
  "isPositive (Fin q) = (0 < q)"
| "isPositive PosInf = True"
| "isPositive _ = False"

fun jsnumLess :: "jsnum \<Rightarrow> jsnum \<Rightarrow> bool" where
  "jsnumLess NaN _ = False"
| "jsnumLess _ NaN = False"
| "jsnumLess (Fin a) (Fin b) = (a < b)"
| "jsnumLess PosInf _ = False"
| "jsnumLess _ PosInf = True"
| "jsnumLess _ NegInf = False"
| "jsnumLess NegInf _ = True"

text \<open>Addition, multiplication, division and \<^verbatim>\<open>Math.round\<close> on all numbers.\<close>

fun jsnumAdd :: "jsnum \<Rightarrow> jsnum \<Rightarrow> jsnum" where
  "jsnumAdd NaN _ = NaN"
| "jsnumAdd _ NaN = NaN"
| "jsnumAdd (Fin a) (Fin b) = Fin (jsAdd a b)"
| "jsnumAdd PosInf NegInf = NaN"
| "jsnumAdd NegInf PosInf = NaN"
| "jsnumAdd PosInf _ = PosInf"
| "jsnumAdd NegInf _ = NegInf"
| "jsnumAdd (Fin a) PosInf = PosInf"
| "jsnumAdd (Fin a) NegInf = NegInf"

definition infinityOfSign :: "rat \<Rightarrow> jsnum" where
  "infinityOfSign s = (if s = 0 then NaN else if 0 < s then PosInf else NegInf)"

fun jsnumMul :: "jsnum \<Rightarrow> jsnum \<Rightarrow> jsnum" where
  "jsnumMul NaN _ = NaN"
| "jsnumMul _ NaN = NaN"
| "jsnumMul (Fin a) (Fin b) = Fin (jsMul a b)"
| "jsnumMul (Fin a) PosInf = infinityOfSign a"
| "jsnumMul (Fin a) NegInf = infinityOfSign (- a)"
| "jsnumMul PosInf (Fin b) = infinityOfSign b"
| "jsnumMul NegInf (Fin b) = infinityOfSign (- b)"
| "jsnumMul PosInf PosInf = PosInf"
| "jsnumMul PosInf NegInf = NegInf"
| "jsnumMul NegInf PosInf = NegInf"
| "jsnumMul NegInf NegInf = PosInf"

text \<open>Division by a finite number other than zero; the program divides by 100 only.\<close>

fun jsnumDiv :: "jsnum \<Rightarrow> rat \<Rightarrow> jsnum" where
  "jsnumDiv NaN b = NaN"
| "jsnumDiv (Fin a) b = Fin (jsDiv a b)"
| "jsnumDiv PosInf b = (if 0 < b then PosInf else NegInf)"
| "jsnumDiv NegInf b = (if 0 < b then NegInf else PosInf)"

fun jsnumMathRound :: "jsnum \<Rightarrow> jsnum" where
  "jsnumMathRound (Fin a) = Fin (jsMathRound a)"
| "jsnumMathRound v = v"

section \<open>JavaScript strings, arrays and objects\<close>

text \<open>
  A string is a list of code units; \<^typ>\<open>char\<close> covers the code units below 256. The
  white space that \<^verbatim>\<open>trim\<close> removes is, in that range, TAB, LF, VT, FF, CR, SP and NBSP.
\<close>

definition isWhiteSpace :: "char \<Rightarrow> bool" where
  "isWhiteSpace c = ((of_char c :: nat) \<in> set [9, 10, 11, 12, 13, 32, 160])"

definition jsTrim :: "string \<Rightarrow> string" where
  "jsTrim s = rev (dropWhile isWhiteSpace (rev (dropWhile isWhiteSpace s)))"

text \<open>\<^verbatim>\<open>val && val.trim()\<close> as a condition; \<open>None\<close> is \<^verbatim>\<open>undefined\<close>.\<close>

definition nonBlank :: "string option \<Rightarrow> bool" where
  "nonBlank val = (case val of None \<Rightarrow> False | Some s \<Rightarrow> s \<noteq> [] \<and> jsTrim s \<noteq> [])"

text \<open>The relational operator \<^verbatim>\<open><\<close> on strings compares code units lexicographically.\<close>

fun strLess :: "string \<Rightarrow> string \<Rightarrow> bool" where
  "strLess [] [] = False"
| "strLess [] (y # ys) = True"
| "strLess (x # xs) [] = False"
| "strLess (x # xs) (y # ys) =
     ((of_char x :: nat) < of_char y \<or> (x = y \<and> strLess xs ys))"

text \<open>Reading \<^verbatim>\<open>xs[i]\<close>: \<^verbatim>\<open>undefined\<close> outside the array.\<close>

definition nthOpt :: "'a list \<Rightarrow> nat \<Rightarrow> 'a option" where
  "nthOpt xs i = (if i < length xs then Some (xs ! i) else None)"

datatype error = TypeError | SparseArray

text \<open>
  Writing \<^verbatim>\<open>xs[i] = v\<close>: in range it replaces, at \<open>i = length\<close> it appends, beyond
  that JavaScript leaves holes in the array, which is then no array of strings any more;
  the model reports this as \<open>SparseArray\<close>.
\<close>

definition jsAssign :: "'a list \<Rightarrow> nat \<Rightarrow> 'a \<Rightarrow> error + 'a list" where
  "jsAssign xs i v =
     (if i < length xs then Inr (xs[i := v])
      else if i = length xs then Inr (xs @ [v])
      else Inl SparseArray)"

text \<open>\<^verbatim>\<open>xs.splice(i, 0, v)\<close>: insertion at \<open>i\<close>, clamped to the length.\<close>

definition spliceInsert :: "nat \<Rightarrow> 'a \<Rightarrow> 'a list \<Rightarrow> 'a list" where
  "spliceInsert i v xs = take i xs @ [v] @ drop i xs"

text \<open>\<^verbatim>\<open>xs.filter((_, index) => P index)\<close>.\<close>

definition filterIndex :: "(nat \<Rightarrow> bool) \<Rightarrow> 'a list \<Rightarrow> 'a list" where
  "filterIndex P xs = map snd (filter (\<lambda>(i, x). P i) (enumerate 0 xs))"

text \<open>\<^verbatim>\<open>findIndex\<close> and \<^verbatim>\<open>indexOf\<close> return \<open>-1\<close> when nothing matches.\<close>

fun findIndex :: "('a \<Rightarrow> bool) \<Rightarrow> 'a list \<Rightarrow> int" where
  "findIndex P [] = -1"
| "findIndex P (x # xs) =
     (if P x then 0
      else (let r = findIndex P xs in if r < 0 then -1 else r + 1))"

definition indexOf :: "'a list \<Rightarrow> 'a \<Rightarrow> int" where
  "indexOf xs v = findIndex (\<lambda>x. x = v) xs"

text \<open>
  Modelled from the spec: \<^verbatim>\<open>arrayMove\<close> is imported from the drag-and-drop library
  and is not part of the sources. The specification describes it as array-move semantics:
  remove at \<open>from\<close>, insert at \<open>to\<close>, preserving the relative order of all other
  elements. It says nothing about indices outside the array; the model has no result there.
\<close>

definition moveElement :: "'a list \<Rightarrow> nat \<Rightarrow> nat \<Rightarrow> 'a list" where
  "moveElement xs i j =
     (let rest = take i xs @ drop (Suc i) xs
      in take j rest @ [xs ! i] @ drop j rest)"

definition arrayMove :: "'a list \<Rightarrow> int \<Rightarrow> int \<Rightarrow> 'a list option" where
  "arrayMove xs fromIndex toIndex =
     (if 0 \<le> fromIndex \<and> fromIndex < int (length xs) \<and> 0 \<le> toIndex \<and> toIndex < int (length xs)
      then Some (moveElement xs (nat fromIndex) (nat toIndex))
      else None)"

text \<open>
  The stable sort \<^verbatim>\<open>Array.prototype.sort(compare)\<close>: \<open>b\<close> is placed before \<open>a\<close> only
  if \<open>compare a b\<close> is positive (\<^verbatim>\<open>NaN\<close> counts as zero). The language fixes stability
  but not the algorithm; for a consistent comparator every stable sort returns the same
  array, here computed by insertion.
\<close>

fun insertSorted :: "('a \<Rightarrow> 'a \<Rightarrow> bool) \<Rightarrow> 'a \<Rightarrow> 'a list \<Rightarrow> 'a list" where
  "insertSorted gt x [] = [x]"
| "insertSorted gt x (y # ys) = (if gt x y then y # insertSorted gt x ys else x # y # ys)"

definition jsSort :: "('a \<Rightarrow> 'a \<Rightarrow> jsnum) \<Rightarrow> 'a list \<Rightarrow> 'a list" where
  "jsSort compare xs = foldr (insertSorted (\<lambda>a b. isPositive (compare a b))) xs []"

text \<open>Decimal digits, and the number that a string of digits denotes.\<close>

definition isDigit :: "char \<Rightarrow> bool" where
  "isDigit c = (48 \<le> (of_char c :: nat) \<and> (of_char c :: nat) \<le> 57)"

definition digitsValue :: "string \<Rightarrow> int" where
  "digitsValue s = foldl (\<lambda>acc c. 10 * acc + (of_char c - 48)) 0 s"

text \<open>
  The program uses plain objects as dictionaries, with column names and cell values as
  keys. Such an object is modelled by the association list of its own properties, in the
  order of their creation; its prototype is \<^verbatim>\<open>Object.prototype\<close>, whose properties
  (ECMAScript 2015 and later, with Annex B) are listed in \<open>objectPrototypeKeys\<close>.
\<close>

type_synonym 'v obj = "(string \<times> 'v) list"

definition objectPrototypeKeys :: "string list" where
  "objectPrototypeKeys =
     [''constructor'', ''__defineGetter__'', ''__defineSetter__'', ''hasOwnProperty'',
      ''__lookupGetter__'', ''__lookupSetter__'', ''isPrototypeOf'', ''propertyIsEnumerable'',
      ''toString'', ''valueOf'', ''__proto__'', ''toLocaleString'']"

text \<open>
  Reading \<^verbatim>\<open>ob[k]\<close> gives the own property if there is one; otherwise the lookup
  continues in the prototype and finds, for a key of \<open>objectPrototypeKeys\<close>, a built-in
  function (for \<^verbatim>\<open>__proto__\<close> the prototype object itself); otherwise the result is
  \<^verbatim>\<open>undefined\<close>.
\<close>

datatype 'v property = Absent | Own 'v | Inherited

definition objGet :: "'v obj \<Rightarrow> string \<Rightarrow> 'v property" where
  "objGet ob k =
     (case map_of ob k of
        Some v \<Rightarrow> Own v
      | None \<Rightarrow> if k \<in> set objectPrototypeKeys then Inherited else Absent)"

text \<open>\<^verbatim>\<open>Object.hasOwn(ob, k)\<close>: the object has an entry of its own for the key.\<close>

definition hasOwn :: "'v obj \<Rightarrow> string \<Rightarrow> bool" where
  "hasOwn ob k = (k \<in> set (map fst ob))"

text \<open>
  The assignment \<^verbatim>\<open>ob[k] = v\<close> of a number: an own property is updated in place;
  otherwise a new own property is created, except for the key \<^verbatim>\<open>__proto__\<close>, where the
  assignment reaches the setter inherited from \<^verbatim>\<open>Object.prototype\<close>, which ignores
  a value that is no object and leaves \<open>ob\<close> as it is.
\<close>

definition objSet :: "string \<Rightarrow> 'v \<Rightarrow> 'v obj \<Rightarrow> 'v obj" where
  "objSet k v ob =
     (if k \<in> set (map fst ob) then map (\<lambda>(k', v'). if k' = k then (k', v) else (k', v')) ob
      else if k = ''__proto__'' then ob
      else ob @ [(k, v)])"

text \<open>
  The computed key of an object literal, \<^verbatim>\<open>{...ob, [k]: v}\<close>, defines an own property
  for every key, also for \<^verbatim>\<open>__proto__\<close>.
\<close>

definition objDefine :: "string \<Rightarrow> 'v \<Rightarrow> 'v obj \<Rightarrow> 'v obj" where
  "objDefine k v ob =
     (if k \<in> set (map fst ob) then map (\<lambda>(k', v'). if k' = k then (k', v) else (k', v')) ob
      else ob @ [(k, v)])"

definition objDelete :: "string \<Rightarrow> 'v obj \<Rightarrow> 'v obj" where
  "objDelete k ob = filter (\<lambda>(k', v'). k' \<noteq> k) ob"

text \<open>
  \<^verbatim>\<open>Object.entries\<close>, \<^verbatim>\<open>Object.keys\<close> and \<^verbatim>\<open>Object.values\<close> enumerate the own
  properties: first the keys that are array indices (canonical decimal numerals up to
  \<open>2^32 - 2\<close>) in ascending numeric order, then all other keys in the order of their
  creation.
\<close>

definition isArrayIndex :: "string \<Rightarrow> bool" where
  "isArrayIndex k =
     (k \<noteq> [] \<and> list_all isDigit k \<and> \<not> (1 < length k \<and> hd k = CHR ''0'')
      \<and> digitsValue k \<le> 4294967294)"

definition objEntries :: "'v obj \<Rightarrow> (string \<times> 'v) list" where
  "objEntries ob =
     sort_key (\<lambda>(k, v). digitsValue k) (filter (\<lambda>(k, v). isArrayIndex k) ob)
     @ filter (\<lambda>(k, v). \<not> isArrayIndex k) ob"

definition objKeys :: "'v obj \<Rightarrow> string list" where
  "objKeys ob = map fst (objEntries ob)"

definition objValues :: "'v obj \<Rightarrow> 'v list" where
  "objValues ob = map snd (objEntries ob)"

text \<open>
  The values that the scoring code can read from its dictionaries: \<^verbatim>\<open>undefined\<close>,
  \<^verbatim>\<open>null\<close>, a number, a string, or an object (a built-in function or prototype
  object). \<open>truthy\<close> is the condition of \<^verbatim>\<open>||\<close>.
\<close>

datatype jsval = JSUndefined | JSNull | JSNumber jsnum | JSString string | JSObject

fun truthy :: "jsval \<Rightarrow> bool" where
  "truthy JSUndefined = False"
| "truthy JSNull = False"
| "truthy (JSNumber n) = (n \<noteq> NaN \<and> n \<noteq> Fin 0)"
| "truthy (JSString s) = (s \<noteq> [])"
| "truthy JSObject = True"

text \<open>\<^verbatim>\<open>x || d\<close>.\<close>

definition orElse :: "jsval \<Rightarrow> jsval \<Rightarrow> jsval" where
  "orElse x d = (if truthy x then x else d)"

text \<open>
  The functions of the language runtime that the program calls on strings are parameters
  of the model: \<^verbatim>\<open>Number(s)\<close>, \<^verbatim>\<open>parseFloat(s)\<close>, \<^verbatim>\<open>parseInt(s)\<close> (\<open>None\<close> for
  \<^verbatim>\<open>NaN\<close>), \<^verbatim>\<open>s.toLowerCase()\<close> and the conversion of a finite number to a string.
  So are the members of the built-in objects: \<open>rtInheritedMember rt k v\<close> is the outcome of
  reading \<^verbatim>\<open>Object.prototype[k][v]\<close> for a key \<open>k\<close> of \<open>objectPrototypeKeys\<close>, a value
  or the exception that an accessor throws.
\<close>

record js_runtime =
  rtNumber :: "string \<Rightarrow> jsnum"
  rtParseFloat :: "string \<Rightarrow> jsnum"
  rtParseInt :: "string \<Rightarrow> rat option"
  rtToLowerCase :: "string \<Rightarrow> string"
  rtNumberToString :: "rat \<Rightarrow> string"
  rtInheritedMember :: "string \<Rightarrow> string \<Rightarrow> error + jsval"

text \<open>
  The conversion of a value to a number, as the arithmetic operators apply it. A built-in
  function or prototype object converts through its string form, which is no numeral.
\<close>

fun toNumber :: "js_runtime \<Rightarrow> jsval \<Rightarrow> jsnum" where
  "toNumber rt JSUndefined = NaN"
| "toNumber rt JSNull = Fin 0"
| "toNumber rt (JSNumber n) = n"
| "toNumber rt (JSString s) = rtNumber rt s"
| "toNumber rt JSObject = NaN"

text \<open>The conversion of a number to a string.\<close>

fun jsnumToString :: "js_runtime \<Rightarrow> jsnum \<Rightarrow> string" where
  "jsnumToString rt NaN = ''NaN''"
| "jsnumToString rt PosInf = ''Infinity''"
| "jsnumToString rt NegInf = ''-Infinity''"
| "jsnumToString rt (Fin x) = rtNumberToString rt x"

section \<open>The grid: \<^verbatim>\<open>DataTable.tsx\<close>\<close>

record TableData =
  headers :: "string list"
  rows :: "string list list"

datatype direction = Asc | Desc

text \<open>
  The state of the component: the \<^verbatim>\<open>data\<close> property and the \<^verbatim>\<open>useState\<close> cells that
  the handlers below read or set. The cells for the context menu and for the cell being
  edited do not influence the table and are left out. A handler is modelled by the state
  it sets itself. The two effects of the component run after it, when the table has
  changed: one clears the selection, the other resets every width to 150 when the number
  of headers has changed.
\<close>

record DataTableState =
  data :: TableData
  columnWidths :: "rat list"
  selectedRows :: "nat fset"
  sortConfig :: "(nat \<times> direction) option"

definition handleDragEnd :: "DataTableState \<Rightarrow> string \<Rightarrow> string option \<Rightarrow> DataTableState option" where
  "handleDragEnd st activeId over =
     (case over of
        None \<Rightarrow> Some st
      | Some overId \<Rightarrow>
          if activeId \<noteq> overId then
            (let oldIndex = findIndex (\<lambda>header. header = activeId) (headers (data st));
                 newIndex = findIndex (\<lambda>header. header = overId) (headers (data st))
             in case arrayMove (headers (data st)) oldIndex newIndex of
                  None \<Rightarrow> None
                | Some newHeaders \<Rightarrow>
                   (case those (map (\<lambda>row. arrayMove row oldIndex newIndex) (rows (data st))) of
                      None \<Rightarrow> None
                    | Some newRows \<Rightarrow>
                       (case arrayMove (columnWidths st) oldIndex newIndex of
                          None \<Rightarrow> None
                        | Some newWidths \<Rightarrow>
                            Some (st\<lparr>columnWidths := newWidths,
                                     data := \<lparr>headers = newHeaders, rows = newRows\<rparr>\<rparr>))))
          else Some st)"

text \<open>
  The specification's \<^verbatim>\<open>moveColumn(from, to)\<close> is the drag of the header at index
  \<open>from\<close> onto the header at index \<open>to\<close>.
\<close>

definition moveColumn :: "DataTableState \<Rightarrow> nat \<Rightarrow> nat \<Rightarrow> DataTableState option" where
  "moveColumn st fromIndex toIndex =
     handleDragEnd st (headers (data st) ! fromIndex) (Some (headers (data st) ! toIndex))"

text \<open>
  \<^verbatim>\<open>newRows[rowIndex] = [...newRows[rowIndex]]\<close> throws a \<^verbatim>\<open>TypeError\<close> when the row
  does not exist (spreading \<^verbatim>\<open>undefined\<close>).
\<close>

definition handleCellChange :: "DataTableState \<Rightarrow> nat \<Rightarrow> nat \<Rightarrow> string \<Rightarrow> error + DataTableState" where
  "handleCellChange st rowIndex colIndex v =
     (case nthOpt (rows (data st)) rowIndex of
        None \<Rightarrow> Inl TypeError
      | Some row \<Rightarrow>
         (case jsAssign row colIndex v of
            Inl e \<Rightarrow> Inl e
          | Inr newRow \<Rightarrow>
              Inr (st\<lparr>data := \<lparr>headers = headers (data st),
                                 rows = (rows (data st))[rowIndex := newRow]\<rparr>\<rparr>)))"

definition handleHeaderChange :: "DataTableState \<Rightarrow> nat \<Rightarrow> string \<Rightarrow> error + DataTableState" where
  "handleHeaderChange st colIndex v =
     (case jsAssign (headers (data st)) colIndex v of
        Inl e \<Rightarrow> Inl e
      | Inr newHeaders \<Rightarrow> Inr (st\<lparr>data := \<lparr>headers = newHeaders, rows = rows (data st)\<rparr>\<rparr>))"

text \<open>
  \<^verbatim>\<open>handleHeaderSave\<close> of \<^verbatim>\<open>SortableColumn.tsx\<close> passes
  \<^verbatim>\<open>tempHeader.trim() || header\<close> on to \<^verbatim>\<open>handleHeaderChange\<close>.
\<close>

definition handleHeaderSave :: "DataTableState \<Rightarrow> nat \<Rightarrow> string \<Rightarrow> string \<Rightarrow> error + DataTableState" where
  "handleHeaderSave st colIndex header tempHeader =
     handleHeaderChange st colIndex (if jsTrim tempHeader \<noteq> [] then jsTrim tempHeader else header)"

definition toggleRowSelection :: "DataTableState \<Rightarrow> nat \<Rightarrow> DataTableState" where
  "toggleRowSelection st rowIndex =
     st\<lparr>selectedRows :=
          (if rowIndex |\<in>| selectedRows st then selectedRows st |-| {|rowIndex|}
           else finsert rowIndex (selectedRows st))\<rparr>"

definition selectAllRows :: "DataTableState \<Rightarrow> DataTableState" where
  "selectAllRows st =
     (if fcard (selectedRows st) = length (rows (data st))
      then st\<lparr>selectedRows := {||}\<rparr>
      else st\<lparr>selectedRows := fset_of_list [0 ..< length (rows (data st))]\<rparr>)"

definition deleteSelectedRows :: "DataTableState \<Rightarrow> DataTableState" where
  "deleteSelectedRows st =
     st\<lparr>data := \<lparr>headers = headers (data st),
                   rows = filterIndex (\<lambda>index. \<not> index |\<in>| selectedRows st) (rows (data st))\<rparr>,
        selectedRows := {||}\<rparr>"

definition newColumnName :: "js_runtime \<Rightarrow> TableData \<Rightarrow> string" where
  "newColumnName rt d = ''Column '' @ rtNumberToString rt (jsAdd (of_nat (length (headers d))) 1)"

definition addColumn :: "js_runtime \<Rightarrow> DataTableState \<Rightarrow> DataTableState" where
  "addColumn rt st =
     st\<lparr>columnWidths := columnWidths st @ [150],
        data := \<lparr>headers = headers (data st) @ [newColumnName rt (data st)],
                 rows = map (\<lambda>row. row @ ['''']) (rows (data st))\<rparr>\<rparr>"

definition addRow :: "DataTableState \<Rightarrow> DataTableState" where
  "addRow st =
     st\<lparr>data := \<lparr>headers = headers (data st),
                   rows = rows (data st) @ [replicate (length (headers (data st))) '''']\<rparr>\<rparr>"

definition insertColumnLeft :: "js_runtime \<Rightarrow> DataTableState \<Rightarrow> nat \<Rightarrow> DataTableState" where
  "insertColumnLeft rt st columnIndex =
     st\<lparr>columnWidths := spliceInsert columnIndex 150 (columnWidths st),
        data := \<lparr>headers = spliceInsert columnIndex (newColumnName rt (data st)) (headers (data st)),
                 rows = map (spliceInsert columnIndex '''') (rows (data st))\<rparr>\<rparr>"

definition insertColumnRight :: "js_runtime \<Rightarrow> DataTableState \<Rightarrow> nat \<Rightarrow> DataTableState" where
  "insertColumnRight rt st columnIndex =
     st\<lparr>columnWidths := spliceInsert (columnIndex + 1) 150 (columnWidths st),
        data := \<lparr>headers = spliceInsert (columnIndex + 1) (newColumnName rt (data st)) (headers (data st)),
                 rows = map (spliceInsert (columnIndex + 1) '''') (rows (data st))\<rparr>\<rparr>"

definition deleteColumn :: "DataTableState \<Rightarrow> nat \<Rightarrow> DataTableState" where
  "deleteColumn st columnIndex =
     (if length (headers (data st)) \<le> 1 then st
      else st\<lparr>columnWidths := filterIndex (\<lambda>index. index \<noteq> columnIndex) (columnWidths st),
              data := \<lparr>headers = filterIndex (\<lambda>index. index \<noteq> columnIndex) (headers (data st)),
                       rows = map (filterIndex (\<lambda>index. index \<noteq> columnIndex)) (rows (data st))\<rparr>\<rparr>)"

text \<open>The literal \<^verbatim>\<open>0.7\<close> denotes the binary64 value nearest to seven tenths.\<close>

text \<open>
  The arrays \<^verbatim>\<open>values\<close> and \<^verbatim>\<open>numericValues\<close> of \<^verbatim>\<open>isNumericColumn\<close>; the
  conversion of \<^verbatim>\<open>undefined\<close> to a number is \<^verbatim>\<open>NaN\<close>.
\<close>

definition columnValues :: "TableData \<Rightarrow> nat \<Rightarrow> string option list" where
  "columnValues d columnIndex = filter nonBlank (map (\<lambda>row. nthOpt row columnIndex) (rows d))"

definition numericValues :: "js_runtime \<Rightarrow> string option list \<Rightarrow> string option list" where
  "numericValues rt vals =
     filter (\<lambda>val. case val of
                      None \<Rightarrow> False
                    | Some s \<Rightarrow> \<not> isNaN (rtNumber rt s) \<and> \<not> isNaN (rtParseFloat rt s)) vals"

definition isNumericColumn :: "js_runtime \<Rightarrow> TableData \<Rightarrow> nat \<Rightarrow> bool" where
  "isNumericColumn rt d columnIndex =
     (let vals = columnValues d columnIndex
      in if length vals = 0 then False
         else jsMul (of_nat (length vals)) (rd (7/10))
                < of_nat (length (numericValues rt vals)))"

text \<open>\<^verbatim>\<open>a[columnIndex] || ''\<close>.\<close>

definition cellOrEmpty :: "string list \<Rightarrow> nat \<Rightarrow> string" where
  "cellOrEmpty row columnIndex = (case nthOpt row columnIndex of None \<Rightarrow> [] | Some v \<Rightarrow> v)"

text \<open>
  The keys that the comparator of \<^verbatim>\<open>sortColumn\<close> computes for a row: \<^verbatim>\<open>aNum\<close> in a
  numeric column and \<^verbatim>\<open>aStr\<close> in any other.
\<close>

definition numericKey :: "js_runtime \<Rightarrow> nat \<Rightarrow> string list \<Rightarrow> jsnum" where
  "numericKey rt columnIndex row = orZero (rtParseFloat rt (cellOrEmpty row columnIndex))"

definition stringKey :: "js_runtime \<Rightarrow> nat \<Rightarrow> string list \<Rightarrow> string" where
  "stringKey rt columnIndex row = rtToLowerCase rt (cellOrEmpty row columnIndex)"

definition sortCompare :: "js_runtime \<Rightarrow> bool \<Rightarrow> nat \<Rightarrow> direction \<Rightarrow> string list \<Rightarrow> string list \<Rightarrow> jsnum" where
  "sortCompare rt isNumeric columnIndex dir a b =
     (let aValue = cellOrEmpty a columnIndex;
          bValue = cellOrEmpty b columnIndex
      in if isNumeric then
           (let aNum = orZero (rtParseFloat rt aValue);
                bNum = orZero (rtParseFloat rt bValue)
            in if dir = Asc then jsnumSub aNum bNum else jsnumSub bNum aNum)
         else
           (let aStr = rtToLowerCase rt aValue;
                bStr = rtToLowerCase rt bValue
            in if dir = Asc
               then (if strLess aStr bStr then Fin (-1) else if strLess bStr aStr then Fin 1 else Fin 0)
               else (if strLess bStr aStr then Fin (-1) else if strLess aStr bStr then Fin 1 else Fin 0)))"

definition sortColumn :: "js_runtime \<Rightarrow> DataTableState \<Rightarrow> nat \<Rightarrow> direction \<Rightarrow> DataTableState" where
  "sortColumn rt st columnIndex dir =
     (let isNumeric = isNumericColumn rt (data st) columnIndex;
          sortedRows = jsSort (sortCompare rt isNumeric columnIndex dir) (rows (data st))
      in st\<lparr>sortConfig := Some (columnIndex, dir),
            data := \<lparr>headers = headers (data st), rows = sortedRows\<rparr>\<rparr>)"

section \<open>The scoring engine: \<^verbatim>\<open>LeadScoringModal\<close>\<close>

datatype importance = VeryImportant | Important | Normal | ALittleImportant | NotImportant

fun IMPORTANCE_LEVELS :: "importance \<Rightarrow> rat" where
  "IMPORTANCE_LEVELS VeryImportant = 100"
| "IMPORTANCE_LEVELS Important = 75"
| "IMPORTANCE_LEVELS Normal = 50"
| "IMPORTANCE_LEVELS ALittleImportant = 25"
| "IMPORTANCE_LEVELS NotImportant = 0"

record ScoringState =
  weights :: "rat obj"
  subcategoryWeights :: "(rat obj) obj"
  includedColumns :: "string list"
  expandedColumn :: string

record SavedScore =
  savedId :: string
  savedName :: string
  savedWeights :: "rat obj"
  savedSubcategoryWeights :: "(rat obj) obj"
  savedIncludedColumns :: "string list"
  savedCreatedAt :: string

text \<open>
  The effect that runs whenever \<^verbatim>\<open>includedColumns\<close> has changed (``Update weights when
  included columns change''). \<open>redistributedWeights\<close> is its \<^verbatim>\<open>newWeights\<close>.
\<close>

definition redistributedWeights :: "string list \<Rightarrow> rat obj" where
  "redistributedWeights cols =
     (let equalWeight = jsMathFloor (jsDiv 100 (of_nat (length cols)));
          remainder = jsSub 100 (jsMul equalWeight (of_nat (length cols)))
      in foldl (\<lambda>newWeights (index, header).
                  objSet header (jsAdd equalWeight (if index = 0 then remainder else 0)) newWeights)
               [] (enumerate 0 cols))"

definition weightsEffect :: "ScoringState \<Rightarrow> ScoringState" where
  "weightsEffect st =
     (if 0 < length (includedColumns st)
      then st\<lparr>weights := redistributedWeights (includedColumns st)\<rparr>
      else st)"

definition totalWeight :: "ScoringState \<Rightarrow> rat" where
  "totalWeight st = foldl (\<lambda>sum weight. jsAdd sum weight) 0 (objValues (weights st))"

definition isValidWeight :: "ScoringState \<Rightarrow> bool" where
  "isValidWeight st = (totalWeight st = 100 \<and> 0 < length (includedColumns st))"

text \<open>
  \<^verbatim>\<open>addColumn\<close> of the modal (the grid has a handler of the same name, hence the
  suffix) and \<^verbatim>\<open>removeColumn\<close>.
\<close>

definition addColumn_scoring :: "string \<Rightarrow> ScoringState \<Rightarrow> ScoringState" where
  "addColumn_scoring header st =
     (if header \<notin> set (includedColumns st)
      then st\<lparr>includedColumns := includedColumns st @ [header]\<rparr>
      else st)"

definition removeColumn :: "string \<Rightarrow> ScoringState \<Rightarrow> ScoringState" where
  "removeColumn header st =
     st\<lparr>includedColumns := filter (\<lambda>col. col \<noteq> header) (includedColumns st),
        weights := objDelete header (weights st),
        expandedColumn := (if expandedColumn st = header then [] else expandedColumn st)\<rparr>"

definition handleWeightChange :: "js_runtime \<Rightarrow> string \<Rightarrow> string \<Rightarrow> ScoringState \<Rightarrow> ScoringState" where
  "handleWeightChange rt header v st =
     (let numValue = (case rtParseInt rt v of None \<Rightarrow> 0 | Some n \<Rightarrow> n)
      in st\<lparr>weights := objDefine header (max 0 (min 100 numValue)) (weights st)\<rparr>)"

definition handleLoadScore :: "SavedScore \<Rightarrow> ScoringState \<Rightarrow> ScoringState" where
  "handleLoadScore score st =
     st\<lparr>weights := savedWeights score,
        subcategoryWeights := savedSubcategoryWeights score,
        includedColumns := savedIncludedColumns score\<rparr>"

text \<open>
  In \<^verbatim>\<open>handleAssignImportance\<close> the spread \<^verbatim>\<open>...prev[columnName]\<close> copies the own
  properties of what it reads: nothing for \<^verbatim>\<open>undefined\<close>, and nothing for an inherited
  built-in, which has no enumerable property of its own.
\<close>

definition handleAssignImportance :: "string \<Rightarrow> string \<Rightarrow> importance \<Rightarrow> ScoringState \<Rightarrow> ScoringState" where
  "handleAssignImportance columnName selectedValue selectedImportance st =
     (if selectedValue \<noteq> []
      then st\<lparr>subcategoryWeights :=
                 objDefine columnName
                   (objDefine selectedValue (IMPORTANCE_LEVELS selectedImportance)
                      (case objGet (subcategoryWeights st) columnName of
                         Own m \<Rightarrow> m
                       | Absent \<Rightarrow> []
                       | Inherited \<Rightarrow> []))
                   (subcategoryWeights st)\<rparr>
      else st)"

text \<open>
  One round of the \<^verbatim>\<open>forEach\<close> of \<^verbatim>\<open>calculateRowScore\<close>, on the running total or
  the exception thrown so far. \<^verbatim>\<open>weights[columnName] || 0\<close> and
  \<^verbatim>\<open>subcategoryWeights[columnName]?.[cellValue] || 50\<close> take their default when the
  entry is missing and also when it is zero; when the lookup finds an inherited member
  instead, that member is taken, and the arithmetic converts it to a number.
\<close>

definition weightValue :: "rat property \<Rightarrow> jsval" where
  "weightValue p = (case p of Absent \<Rightarrow> JSUndefined | Own w \<Rightarrow> JSNumber (Fin w) | Inherited \<Rightarrow> JSObject)"

definition valueWeightRead :: "js_runtime \<Rightarrow> ScoringState \<Rightarrow> string \<Rightarrow> string \<Rightarrow> error + jsval" where
  "valueWeightRead rt st columnName cellValue =
     (case objGet (subcategoryWeights st) columnName of
        Absent \<Rightarrow> Inr JSUndefined
      | Own m \<Rightarrow> Inr (weightValue (objGet m cellValue))
      | Inherited \<Rightarrow> rtInheritedMember rt columnName cellValue)"

definition scoreStep ::
  "js_runtime \<Rightarrow> ScoringState \<Rightarrow> TableData \<Rightarrow> string list \<Rightarrow> error + jsnum \<Rightarrow> string \<Rightarrow> error + jsnum" where
  "scoreStep rt st d row acc columnName =
     (case acc of
        Inl e \<Rightarrow> Inl e
      | Inr totalScore \<Rightarrow>
         (let columnIndex = indexOf (headers d) columnName
          in if columnIndex = -1 then Inr totalScore
             else (case nthOpt row (nat columnIndex) of
                     None \<Rightarrow> Inr totalScore
                   | Some cellValue \<Rightarrow>
                       if cellValue = [] \<or> jsTrim cellValue = [] then Inr totalScore
                       else
                         (let columnWeight =
                                orElse (weightValue (objGet (weights st) columnName)) (JSNumber (Fin 0))
                          in case valueWeightRead rt st columnName cellValue of
                               Inl e \<Rightarrow> Inl e
                             | Inr x \<Rightarrow>
                                 (let subcategoryWeight = orElse x (JSNumber (Fin 50))
                                  in Inr (jsnumAdd totalScore
                                            (jsnumMul (jsnumDiv (toNumber rt columnWeight) 100)
                                                      (toNumber rt subcategoryWeight))))))))"

definition calculateRowScore ::
  "js_runtime \<Rightarrow> ScoringState \<Rightarrow> TableData \<Rightarrow> string list \<Rightarrow> error + jsnum" where
  "calculateRowScore rt st d row =
     (case foldl (scoreStep rt st d row) (Inr (Fin 0)) (includedColumns st) of
        Inl e \<Rightarrow> Inl e
      | Inr totalScore \<Rightarrow> Inr (jsnumDiv (jsnumMathRound (jsnumMul totalScore (Fin 100))) 100))"

text \<open>
  \<^verbatim>\<open>handleApplyScoreToData\<close> returns without calling \<^verbatim>\<open>onDataChange\<close> (\<open>None\<close>) unless
  the weights are valid; otherwise it passes on the new table, unless the score of a row
  throws. The callback is present, as it is where \<^verbatim>\<open>App.tsx\<close> uses the modal.
  \<open>mapRows\<close> is \<^verbatim>\<open>rows.map\<close> with a callback that can throw.
\<close>

fun mapRows :: "('a \<Rightarrow> error + 'b) \<Rightarrow> 'a list \<Rightarrow> error + 'b list" where
  "mapRows f [] = Inr []"
| "mapRows f (x # xs) =
     (case f x of
        Inl e \<Rightarrow> Inl e
      | Inr y \<Rightarrow> (case mapRows f xs of Inl e \<Rightarrow> Inl e | Inr ys \<Rightarrow> Inr (y # ys)))"

definition handleApplyScoreToData ::
  "js_runtime \<Rightarrow> ScoringState \<Rightarrow> TableData \<Rightarrow> error + TableData option" where
  "handleApplyScoreToData rt st d =
     (if \<not> isValidWeight st then Inr None
      else
        (let scoreColumnName = ''Lead Score'';
             found = indexOf (headers d) scoreColumnName;
             newHeaders = (if found = -1 then headers d @ [scoreColumnName] else headers d);
             scoreColumnIndex = (if found = -1 then length newHeaders - 1 else nat found)
         in case mapRows (\<lambda>row.
                            (case calculateRowScore rt st d row of
                               Inl e \<Rightarrow> Inl e
                             | Inr score \<Rightarrow>
                                 Inr ((row @ replicate (length newHeaders - length row) '''')
                                        [scoreColumnIndex := jsnumToString rt score])))
                         (rows d) of
              Inl e \<Rightarrow> Inl e
            | Inr newRows \<Rightarrow> Inr (Some \<lparr>headers = newHeaders, rows = newRows\<rparr>)))"

section \<open>The sheet registry: \<^verbatim>\<open>App.tsx\<close>\<close>

text \<open>
  The fields \<^verbatim>\<open>id\<close>, \<^verbatim>\<open>name\<close> and \<^verbatim>\<open>data\<close> of a sheet carry a prefix here, since
  \<open>id\<close> and \<open>data\<close> are taken.
\<close>

record Sheet =
  sheet_id :: string
  sheet_name :: string
  sheet_data :: "TableData option"

record Registry =
  sheets :: "Sheet list"
  activeSheetId :: string

datatype importMode = Replace | New

definition handleDataChange :: "TableData option \<Rightarrow> Registry \<Rightarrow> Registry" where
  "handleDataChange d r =
     r\<lparr>sheets := map (\<lambda>sheet. if sheet_id sheet = activeSheetId r
                               then sheet\<lparr>sheet_data := d\<rparr> else sheet) (sheets r)\<rparr>"

text \<open>
  The new sheet of \<^verbatim>\<open>addNewSheet\<close> and of \<^verbatim>\<open>handleImportData\<close> in mode \<^verbatim>\<open>new\<close>:
  its id is one more than the greatest id that \<^verbatim>\<open>parseInt\<close> reads as a number.
\<close>

definition nextSheetId :: "js_runtime \<Rightarrow> Registry \<Rightarrow> rat" where
  "nextSheetId rt r =
     (let existingIds = List.map_filter (\<lambda>s. rtParseInt rt (sheet_id s)) (sheets r)
      in if 0 < length existingIds
         then jsAdd (foldl max (hd existingIds) (tl existingIds)) 1
         else 1)"

definition appendSheet :: "js_runtime \<Rightarrow> TableData option \<Rightarrow> Registry \<Rightarrow> Registry" where
  "appendSheet rt d r =
     (let newId = nextSheetId rt r;
          newSheet = \<lparr>sheet_id = rtNumberToString rt newId,
                      sheet_name = ''Sheet '' @ rtNumberToString rt newId,
                      sheet_data = d\<rparr>
      in \<lparr>sheets = sheets r @ [newSheet], activeSheetId = rtNumberToString rt newId\<rparr>)"

definition addNewSheet :: "js_runtime \<Rightarrow> Registry \<Rightarrow> Registry" where
  "addNewSheet rt r = appendSheet rt None r"

definition renameSheet :: "string \<Rightarrow> string \<Rightarrow> Registry \<Rightarrow> Registry" where
  "renameSheet i name r =
     r\<lparr>sheets := map (\<lambda>sheet. if sheet_id sheet = i then sheet\<lparr>sheet_name := name\<rparr> else sheet)
                      (sheets r)\<rparr>"

text \<open>
  \<^verbatim>\<open>remainingSheets[0].id\<close> throws a \<^verbatim>\<open>TypeError\<close> when no sheet remains.
\<close>

definition deleteSheet :: "string \<Rightarrow> Registry \<Rightarrow> error + Registry" where
  "deleteSheet i r =
     (if length (sheets r) \<le> 1 then Inr r
      else
        (let remainingSheets = filter (\<lambda>sheet. sheet_id sheet \<noteq> i) (sheets r)
         in if i = activeSheetId r
            then (case remainingSheets of
                    [] \<Rightarrow> Inl TypeError
                  | first # _ \<Rightarrow> Inr \<lparr>sheets = remainingSheets, activeSheetId = sheet_id first\<rparr>)
            else Inr \<lparr>sheets = remainingSheets, activeSheetId = activeSheetId r\<rparr>))"

definition handleImportData :: "js_runtime \<Rightarrow> TableData \<Rightarrow> importMode \<Rightarrow> Registry \<Rightarrow> Registry" where
  "handleImportData rt d mode r =
     (if mode = New then appendSheet rt (Some d) r else handleDataChange (Some d) r)"

text \<open>The operations on the registry that the user interface offers.\<close>

datatype registry_op =
    AddNewSheet
  | RenameSheet string string
  | DeleteSheet string
  | SetActiveSheet string
  | DataChange "TableData option"
  | ImportData TableData importMode

fun registryStep :: "js_runtime \<Rightarrow> registry_op \<Rightarrow> Registry \<Rightarrow> error + Registry" where
  "registryStep rt AddNewSheet r = Inr (addNewSheet rt r)"
| "registryStep rt (RenameSheet i name) r = Inr (renameSheet i name r)"
| "registryStep rt (DeleteSheet i) r = deleteSheet i r"
| "registryStep rt (SetActiveSheet i) r = Inr (r\<lparr>activeSheetId := i\<rparr>)"
| "registryStep rt (DataChange d) r = Inr (handleDataChange d r)"
| "registryStep rt (ImportData d mode) r = Inr (handleImportData rt d mode r)"

section \<open>Invariants of the data model\<close>

text \<open>Invariant I2 of the table: every row is as long as the header row.\<close>

definition tableInv :: "TableData \<Rightarrow> bool" where
  "tableInv d = (\<forall>row \<in> set (rows d). length row = length (headers d))"

text \<open>The column widths correspond to the headers index by index.\<close>

definition widthsInv :: "DataTableState \<Rightarrow> bool" where
  "widthsInv st = (length (columnWidths st) = length (headers (data st)))"

text \<open>The weight that a column has in the configuration: its own entry, or 0 without one.\<close>

definition columnWeightOf :: "ScoringState \<Rightarrow> string \<Rightarrow> rat" where
  "columnWeightOf st c =
     (case objGet (weights st) c of Own w \<Rightarrow> w | Absent \<Rightarrow> 0 | Inherited \<Rightarrow> 0)"

section \<open>The specification's formulas\<close>

text \<open>
  The row score as the specification words it, in exact arithmetic: the sum over the
  included columns of \<open>columnWeight / 100\<close> times the weight of the cell's value, where
  a blank cell contributes nothing and a value without assignment weighs 50, rounded
  half-up to two decimal places.
\<close>

definition round2 :: "rat \<Rightarrow> rat" where
  "round2 x = of_int \<lfloor>x * 100 + 1/2\<rfloor> / 100"

definition specValueWeight :: "ScoringState \<Rightarrow> string \<Rightarrow> string \<Rightarrow> rat" where
  "specValueWeight st c v =
     (case objGet (subcategoryWeights st) c of
        Own m \<Rightarrow> (case objGet m v of Own w \<Rightarrow> w | Absent \<Rightarrow> 50 | Inherited \<Rightarrow> 50)
      | Absent \<Rightarrow> 50
      | Inherited \<Rightarrow> 50)"

definition specContribution :: "ScoringState \<Rightarrow> TableData \<Rightarrow> string list \<Rightarrow> string \<Rightarrow> rat" where
  "specContribution st d row c =
     (let i = indexOf (headers d) c
      in if i < 0 then 0
         else (case nthOpt row (nat i) of
                 None \<Rightarrow> 0
               | Some v \<Rightarrow> if nonBlank (Some v)
                           then (columnWeightOf st c / 100) * specValueWeight st c v
                           else 0))"

definition specRowScore :: "ScoringState \<Rightarrow> TableData \<Rightarrow> string list \<Rightarrow> rat" where
  "specRowScore st d row = round2 (sum_list (map (specContribution st d row) (includedColumns st)))"

text \<open>
  The sort as the specification words it, for one notion \<open>parse\<close> of ``parses as a
  floating-point number'': the column is numeric iff strictly more than 70 percent of its
  non-blank cells parse; a numeric column is sorted by the parsed value, blank and
  unparseable cells counting as 0; any other column is sorted by the lower-cased string;
  the sort is stable.
\<close>

definition specIsNumeric :: "(string \<Rightarrow> rat option) \<Rightarrow> TableData \<Rightarrow> nat \<Rightarrow> bool" where
  "specIsNumeric parse d c =
     (let vals = filter (\<lambda>s. nonBlank (Some s)) (map (\<lambda>row. cellOrEmpty row c) (rows d))
      in 7 * length vals < 10 * length (filter (\<lambda>s. parse s \<noteq> None) vals))"

definition specNumericKey :: "(string \<Rightarrow> rat option) \<Rightarrow> nat \<Rightarrow> string list \<Rightarrow> rat" where
  "specNumericKey parse c row = (case parse (cellOrEmpty row c) of None \<Rightarrow> 0 | Some x \<Rightarrow> x)"

definition specCompare ::
  "(string \<Rightarrow> rat option) \<Rightarrow> (string \<Rightarrow> string) \<Rightarrow> bool \<Rightarrow> nat \<Rightarrow> direction \<Rightarrow> string list \<Rightarrow> string list \<Rightarrow> jsnum" where
  "specCompare parse lower numeric c dir a b =
     (let x = (if dir = Asc then a else b); y = (if dir = Asc then b else a)
      in if numeric then Fin (specNumericKey parse c x - specNumericKey parse c y)
         else if strLess (lower (cellOrEmpty x c)) (lower (cellOrEmpty y c)) then Fin (-1)
         else if strLess (lower (cellOrEmpty y c)) (lower (cellOrEmpty x c)) then Fin 1
         else Fin 0)"

definition specSortByColumn ::
  "(string \<Rightarrow> rat option) \<Rightarrow> (string \<Rightarrow> string) \<Rightarrow> TableData \<Rightarrow> nat \<Rightarrow> direction \<Rightarrow> string list list" where
  "specSortByColumn parse lower d c dir =
     jsSort (specCompare parse lower (specIsNumeric parse d c) c dir) (rows d)"

section \<open>A reference runtime for examples\<close>

text \<open>
  Concrete instances of the runtime functions, used where a statement is evaluated on
  an example. \<open>refParseFloat\<close>, \<open>refNumber\<close> and \<open>refParseInt\<close> agree with
  \<^verbatim>\<open>parseFloat\<close>, \<^verbatim>\<open>Number\<close> and \<^verbatim>\<open>parseInt\<close> on every string that consists of
  decimal digits and the letters \<^verbatim>\<open>k\<close> and \<^verbatim>\<open>g\<close> only: \<^verbatim>\<open>parseFloat\<close> and
  \<^verbatim>\<open>parseInt\<close> read the longest prefix of digits and are \<^verbatim>\<open>NaN\<close> if it is empty;
  \<^verbatim>\<open>Number\<close> reads the whole string, is \<^verbatim>\<open>NaN\<close> if a letter occurs in it and 0 for
  the empty string. \<open>refToLowerCase\<close> agrees with \<^verbatim>\<open>toLowerCase\<close> on ASCII strings,
  and \<open>refNumberToString\<close> with the conversion of a number to a string on the
  non-negative multiples of one hundredth.
\<close>

definition refParseFloat :: "string \<Rightarrow> jsnum" where
  "refParseFloat s =
     (let ds = takeWhile isDigit s
      in if ds = [] then NaN else Fin (rd (of_int (digitsValue ds))))"

definition refNumber :: "string \<Rightarrow> jsnum" where
  "refNumber s = (if list_all isDigit s then Fin (rd (of_int (digitsValue s))) else NaN)"

definition refParseInt :: "string \<Rightarrow> rat option" where
  "refParseInt s =
     (let ds = takeWhile isDigit s
      in if ds = [] then None else Some (rd (of_int (digitsValue ds))))"

definition refToLowerCase :: "string \<Rightarrow> string" where
  "refToLowerCase s =
     map (\<lambda>c. if 65 \<le> (of_char c :: nat) \<and> (of_char c :: nat) \<le> 90
               then char_of ((of_char c :: nat) + 32) else c) s"

fun decimalDigits :: "nat \<Rightarrow> string" where
  "decimalDigits n =
     (if n < 10 then [char_of (48 + n)]
      else decimalDigits (n div 10) @ [char_of (48 + n mod 10)])"

declare decimalDigits.simps [simp del]

definition refNumberToString :: "rat \<Rightarrow> string" where
  "refNumberToString x =
     (let k = nat \<lfloor>x * 100 + 1/2\<rfloor>; whole = decimalDigits (k div 100); f = k mod 100
      in if f = 0 then whole
         else if f mod 10 = 0 then whole @ ''.'' @ decimalDigits (f div 10)
         else whole @ ''.'' @ [char_of (48 + f div 10), char_of (48 + f mod 10)])"

text \<open>
  The members of the built-in objects as of ECMAScript 2024. For the key \<^verbatim>\<open>__proto__\<close>
  the object read is \<^verbatim>\<open>Object.prototype\<close> itself, whose own prototype is \<^verbatim>\<open>null\<close>;
  for every other key of \<open>objectPrototypeKeys\<close> it is a built-in function, with the own
  members \<^verbatim>\<open>length\<close> and \<^verbatim>\<open>name\<close>, for \<^verbatim>\<open>Object\<close> also \<^verbatim>\<open>prototype\<close> and its
  static methods, and the inherited members of \<^verbatim>\<open>Function.prototype\<close> and
  \<^verbatim>\<open>Object.prototype\<close>; the accessors \<^verbatim>\<open>caller\<close> and \<^verbatim>\<open>arguments\<close> throw.
\<close>

definition builtinFunctionLength :: "string \<Rightarrow> rat" where
  "builtinFunctionLength k =
     (if k \<in> set [''toString'', ''valueOf'', ''toLocaleString''] then 0
      else if k \<in> set [''__defineGetter__'', ''__defineSetter__''] then 2
      else 1)"

definition objectStaticMembers :: "string list" where
  "objectStaticMembers =
     [''prototype'', ''assign'', ''create'', ''defineProperties'', ''defineProperty'', ''entries'',
      ''freeze'', ''fromEntries'', ''getOwnPropertyDescriptor'', ''getOwnPropertyDescriptors'',
      ''getOwnPropertyNames'', ''getOwnPropertySymbols'', ''getPrototypeOf'', ''groupBy'',
      ''hasOwn'', ''is'', ''isExtensible'', ''isFrozen'', ''isSealed'', ''keys'',
      ''preventExtensions'', ''seal'', ''setPrototypeOf'', ''values'']"

definition refInheritedMember :: "string \<Rightarrow> string \<Rightarrow> error + jsval" where
  "refInheritedMember k v =
     (if k = ''__proto__''
      then (if v = ''__proto__'' then Inr JSNull
            else if v \<in> set objectPrototypeKeys then Inr JSObject
            else Inr JSUndefined)
      else if v = ''length'' then Inr (JSNumber (Fin (builtinFunctionLength k)))
      else if v = ''name'' then Inr (JSString (if k = ''constructor'' then ''Object'' else k))
      else if v \<in> set [''caller'', ''arguments''] then Inl TypeError
      else if v \<in> set [''apply'', ''bind'', ''call''] then Inr JSObject
      else if v \<in> set objectPrototypeKeys then Inr JSObject
      else if k = ''constructor'' \<and> v \<in> set objectStaticMembers then Inr JSObject
      else Inr JSUndefined)"

definition refRuntime :: js_runtime where
  "refRuntime = \<lparr>rtNumber = refNumber, rtParseFloat = refParseFloat, rtParseInt = refParseInt,
                 rtToLowerCase = refToLowerCase, rtNumberToString = refNumberToString,
                 rtInheritedMember = refInheritedMember\<rparr>"

text \<open>The two readings of ``parses as a floating-point number'' on such strings.\<close>

definition parseWhole :: "string \<Rightarrow> rat option" where
  "parseWhole s = (case refNumber s of Fin q \<Rightarrow> Some q | _ \<Rightarrow> None)"

definition parsePrefix :: "string \<Rightarrow> rat option" where
  "parsePrefix s = (case refParseFloat s of Fin q \<Rightarrow> Some q | _ \<Rightarrow> None)"

section \<open>Example states\<close>

text \<open>The table of the specification's scenario, as the grid shows it after import.\<close>

definition exampleTable :: TableData where
  "exampleTable = \<lparr>headers = [''Name'', ''Size''],
                    rows = [[''Acme'', ''Large''], [''Beta'', ''Small'']]\<rparr>"

definition exampleState :: DataTableState where
  "exampleState = \<lparr>data = exampleTable, columnWidths = [150, 150],
                    selectedRows = {||}, sortConfig = None\<rparr>"

text \<open>A registry with two sheets, the second one active.\<close>

definition exampleRegistry :: Registry where
  "exampleRegistry =
     \<lparr>sheets = [\<lparr>sheet_id = ''1'', sheet_name = ''Sheet 1'', sheet_data = Some exampleTable\<rparr>,
                \<lparr>sheet_id = ''2'', sheet_name = ''Sheet 2'', sheet_data = None\<rparr>],
      activeSheetId = ''2''\<rparr>"

text \<open>
  Three one-column tables: three numbers and a quantity with a unit; three quantities
  with units; and 90 cells of which 63, exactly 70 percent, are numbers.
\<close>

definition unitTable :: TableData where
  "unitTable = \<lparr>headers = [''Qty''], rows = [[''1''], [''2''], [''3''], [''10kg'']]\<rparr>"

definition unitsTable :: TableData where
  "unitsTable = \<lparr>headers = [''Qty''], rows = [[''12kg''], [''5kg''], [''7kg'']]\<rparr>"

definition seventyPercentTable :: TableData where
  "seventyPercentTable = \<lparr>headers = [''Qty''], rows = replicate 63 [''1''] @ replicate 27 [''k'']\<rparr>"

definition stateOf :: "TableData \<Rightarrow> DataTableState" where
  "stateOf d = \<lparr>data = d, columnWidths = replicate (length (headers d)) 150,
                selectedRows = {||}, sortConfig = None\<rparr>"

definition singleSheetRegistry :: Registry where
  "singleSheetRegistry =
     \<lparr>sheets = [\<lparr>sheet_id = ''1'', sheet_name = ''Sheet 1'', sheet_data = Some exampleTable\<rparr>],
      activeSheetId = ''1''\<rparr>"

text \<open>
  A scoring configuration on that table: both columns included with weights 60 and 40;
  \<^verbatim>\<open>Large\<close> is ``Very Important'' and \<^verbatim>\<open>Small\<close> is ``Not Important''.
\<close>

definition exampleScoring :: ScoringState where
  "exampleScoring =
     \<lparr>weights = [(''Name'', 60), (''Size'', 40)],
      subcategoryWeights = [(''Size'', [(''Large'', 100), (''Small'', 0)])],
      includedColumns = [''Name'', ''Size''],
      expandedColumn = []\<rparr>"

text \<open>
  The same table with one row whose \<^verbatim>\<open>Size\<close> is the word \<^verbatim>\<open>constructor\<close>, and the
  state of the modal when it has just been opened.
\<close>

definition constructorTable :: TableData where
  "constructorTable = \<lparr>headers = [''Name'', ''Size''], rows = [[''Acme'', ''constructor'']]\<rparr>"

definition initialScoring :: ScoringState where
  "initialScoring = \<lparr>weights = [], subcategoryWeights = [], includedColumns = [], expandedColumn = []\<rparr>"

section \<open>Properties of the number model\<close>

text \<open>
  Rounding is monotone, exact on every value with a significand below \<open>2^53\<close>, and its
  relative error on other values is at most \<open>2^-53\<close>.
\<close>

lemma pow2_add: "(2::rat) powi (m + n) = 2 powi m * 2 powi n"
  by (simp add: power_int_add)

lemma pow2_diff: "(2::rat) powi (m - n) = 2 powi m / 2 powi n"
  by (simp add: power_int_diff)

lemma pow2_pos: "(0::rat) < 2 powi n"
  by simp

lemma pow2_less_iff: "(2::rat) powi m < 2 powi n \<longleftrightarrow> m < n"
proof
  assume "(2::rat) powi m < 2 powi n"
  show "m < n"
  proof (rule ccontr)
    assume "\<not> m < n"
    then have "n \<le> m" by simp
    then have "(2::rat) powi n \<le> 2 powi m" by (rule power_int_increasing) simp
    with \<open>(2::rat) powi m < 2 powi n\<close> show False by simp
  qed
next
  assume "m < n"
  then show "(2::rat) powi m < 2 powi n" by (rule power_int_strict_increasing) simp
qed

lemma pow2_le_iff: "(2::rat) powi m \<le> 2 powi n \<longleftrightarrow> m \<le> n"
  using pow2_less_iff[of n m] by (auto simp: not_less[symmetric])

lemma bitlen_powi_bounds:
  assumes "0 < p"
  shows "(2::rat) powi (bitlen p - 1) \<le> of_int p" "of_int p < (2::rat) powi (bitlen p)"
proof -
  have b: "2 ^ nat (bitlen p - 1) \<le> p" "p < 2 ^ nat (bitlen p)"
    using bitlen_bounds[OF assms] by auto
  have ge1: "1 \<le> bitlen p"
    using assms bitlen_eq_zero_iff[of p] bitlen_nonneg[of p] by linarith
  have "(2::rat) powi (bitlen p - 1) = 2 ^ nat (bitlen p - 1)"
    using ge1 by (simp add: power_int_def)
  also have "\<dots> = of_int (2 ^ nat (bitlen p - 1))" by simp
  also have "\<dots> \<le> of_int p" using b(1) by (simp only: of_int_le_iff)
  finally show "(2::rat) powi (bitlen p - 1) \<le> of_int p" .
  have "(of_int p :: rat) < of_int (2 ^ nat (bitlen p))"
    using b(2) by (simp only: of_int_less_iff)
  also have "\<dots> = 2 powi (bitlen p)"
    using ge1 by (simp add: power_int_def)
  finally show "of_int p < (2::rat) powi (bitlen p)" .
qed

lemma ilog2_bounds:
  assumes "0 < x"
  shows "2 powi (ilog2 x) \<le> x" "x < 2 powi (ilog2 x + 1)"
proof -
  obtain p q where pq: "quotient_of x = (p, q)" by (cases "quotient_of x")
  have q: "0 < q" using quotient_of_denom_pos[OF pq] .
  have x: "x = of_int p / of_int q" using quotient_of_div[OF pq] .
  have p: "0 < p" using assms q x by (simp add: zero_less_divide_iff)
  define l where "l = bitlen p - bitlen q"
  have il: "ilog2 x = (if 2 powi l \<le> x then l else l - 1)"
    by (simp add: ilog2_def pq l_def Let_def)
  have qpos: "(0::rat) < of_int q" using q by simp
  have lo: "2 powi (l - 1) \<le> x"
  proof -
    have "(2::rat) powi (l - 1) = 2 powi (bitlen p - 1) / 2 powi (bitlen q)"
      unfolding l_def pow2_diff[symmetric] by (simp add: algebra_simps)
    also have "\<dots> \<le> of_int p / 2 powi (bitlen q)"
      using bitlen_powi_bounds(1)[OF p] by (simp add: divide_right_mono)
    also have "\<dots> \<le> of_int p / of_int q"
      using bitlen_powi_bounds(2)[OF q] p qpos by (simp add: frac_le)
    finally show ?thesis by (simp add: x)
  qed
  have hi: "x < 2 powi (l + 1)"
  proof -
    have "x = of_int p / of_int q" by (rule x)
    also have "\<dots> < 2 powi (bitlen p) / of_int q"
      using bitlen_powi_bounds(2)[OF p] qpos by (simp add: divide_strict_right_mono)
    also have "\<dots> \<le> 2 powi (bitlen p) / 2 powi (bitlen q - 1)"
      using bitlen_powi_bounds(1)[OF q] by (simp add: frac_le)
    also have "\<dots> = 2 powi (l + 1)"
      unfolding l_def pow2_diff[symmetric] by (simp add: algebra_simps)
    finally show ?thesis .
  qed
  show "2 powi (ilog2 x) \<le> x" using il lo by (auto split: if_splits)
  show "x < 2 powi (ilog2 x + 1)" using il hi by (auto split: if_splits simp: not_le)
qed

lemma ilog2_unique:
  assumes "2 powi k \<le> x" "x < 2 powi (k + 1)"
  shows "ilog2 x = k"
proof -
  have xp: "0 < x" using assms(1) zero_less_power_int[of "2::rat" k] by linarith
  note b = ilog2_bounds[OF xp]
  have "2 powi k < (2::rat) powi (ilog2 x + 1)" using assms(1) b(2) by linarith
  then have 1: "k < ilog2 x + 1" by (simp add: pow2_less_iff)
  have "2 powi (ilog2 x) < (2::rat) powi (k + 1)" using assms(2) b(1) by linarith
  then have 2: "ilog2 x < k + 1" by (simp add: pow2_less_iff)
  from 1 2 show ?thesis by linarith
qed

lemma ilog2_mono:
  assumes "0 < x" "x \<le> y"
  shows "ilog2 x \<le> ilog2 y"
proof -
  have yp: "0 < y" using assms by linarith
  have "2 powi (ilog2 x) \<le> x" using ilog2_bounds(1)[OF assms(1)] .
  also have "\<dots> \<le> y" by fact
  also have "\<dots> < 2 powi (ilog2 y + 1)" using ilog2_bounds(2)[OF yp] .
  finally have "ilog2 x < ilog2 y + 1" by (simp add: pow2_less_iff)
  then show ?thesis by linarith
qed

lemma roundHalfEven_of_int: "roundHalfEven (of_int k) = k"
  by (simp add: roundHalfEven_def)

lemma roundHalfEven_error: "\<bar>of_int (roundHalfEven y) - y\<bar> \<le> 1/2"
proof -
  have "of_int \<lfloor>y\<rfloor> \<le> y" "y < of_int \<lfloor>y\<rfloor> + 1" by linarith+
  then show ?thesis
    by (auto simp: roundHalfEven_def Let_def abs_le_iff)
qed

lemma roundHalfEven_mono:
  assumes "y \<le> z"
  shows "roundHalfEven y \<le> roundHalfEven z"
proof (cases "\<lfloor>y\<rfloor> = \<lfloor>z\<rfloor>")
  case True
  then show ?thesis using assms
    by (auto simp: roundHalfEven_def Let_def)
next
  case False
  then have "\<lfloor>y\<rfloor> + 1 \<le> \<lfloor>z\<rfloor>" using floor_mono[OF assms] by linarith
  moreover have "roundHalfEven y \<le> \<lfloor>y\<rfloor> + 1" by (auto simp: roundHalfEven_def Let_def)
  moreover have "\<lfloor>z\<rfloor> \<le> roundHalfEven z" by (auto simp: roundHalfEven_def Let_def)
  ultimately show ?thesis by linarith
qed


lemma rd_pos_eq:
  assumes "0 < x"
  shows "rd x = of_int (roundHalfEven (x / 2 powi (ilog2 x - 52))) * 2 powi (ilog2 x - 52)"
  using assms by (simp add: rd_def Let_def)

lemma scaled_bounds:
  assumes "0 < x"
  shows "2 ^ 52 \<le> x / 2 powi (ilog2 x - 52)" "x / 2 powi (ilog2 x - 52) < 2 ^ 53"
proof -
  let ?e = "ilog2 x - 52"
  have a: "(2::rat) powi (ilog2 x) = 2 ^ 52 * 2 powi ?e"
  proof -
    have "ilog2 x = 52 + ?e" by linarith
    then have "(2::rat) powi (ilog2 x) = 2 powi (52 + ?e)" by (rule arg_cong)
    also have "\<dots> = 2 powi 52 * 2 powi ?e" by (rule pow2_add)
    finally show ?thesis by simp
  qed
  have b: "(2::rat) powi (ilog2 x + 1) = 2 ^ 53 * 2 powi ?e"
  proof -
    have "ilog2 x + 1 = 53 + ?e" by linarith
    then have "(2::rat) powi (ilog2 x + 1) = 2 powi (53 + ?e)" by (rule arg_cong)
    also have "\<dots> = 2 powi 53 * 2 powi ?e" by (rule pow2_add)
    finally show ?thesis by simp
  qed
  have "2 ^ 52 * 2 powi ?e \<le> x" using ilog2_bounds(1)[OF assms] a by simp
  then show "2 ^ 52 \<le> x / 2 powi ?e" by (simp add: pos_le_divide_eq)
  have "x < 2 ^ 53 * 2 powi ?e" using ilog2_bounds(2)[OF assms] b by simp
  then show "x / 2 powi ?e < 2 ^ 53" by (simp add: pos_divide_less_eq)
qed

lemma roundHalfEven_scaled_bounds:
  assumes "0 < x"
  shows "2 ^ 52 \<le> roundHalfEven (x / 2 powi (ilog2 x - 52))"
        "roundHalfEven (x / 2 powi (ilog2 x - 52)) \<le> 2 ^ 53"
proof -
  let ?y = "x / 2 powi (ilog2 x - 52)"
  have "roundHalfEven (of_int (2 ^ 52)) \<le> roundHalfEven ?y"
    using scaled_bounds(1)[OF assms] by (intro roundHalfEven_mono) simp
  then show "2 ^ 52 \<le> roundHalfEven ?y" by (simp only: roundHalfEven_of_int)
  have "roundHalfEven ?y \<le> roundHalfEven (of_int (2 ^ 53))"
    using scaled_bounds(2)[OF assms] by (intro roundHalfEven_mono) simp
  then show "roundHalfEven ?y \<le> 2 ^ 53" by (simp only: roundHalfEven_of_int)
qed

lemma rd_pos: "0 < x \<Longrightarrow> 0 < rd x"
  using roundHalfEven_scaled_bounds(1)[of x]
  by (simp add: rd_pos_eq zero_less_mult_iff)

lemma rd_nonneg: "0 \<le> x \<Longrightarrow> 0 \<le> rd x"
  using rd_pos[of x] by (cases "x = 0") (auto simp: rd_def)

lemma rd_zero: "rd 0 = 0"
  by (simp add: rd_def)

lemma rd_mono_pos:
  assumes "0 < x" "x \<le> y"
  shows "rd x \<le> rd y"
proof -
  have yp: "0 < y" using assms by linarith
  let ?ex = "ilog2 x - 52" and ?ey = "ilog2 y - 52"
  have le: "?ex \<le> ?ey" using ilog2_mono[OF assms] by simp
  show ?thesis
  proof (cases "?ex = ?ey")
    case True
    have "x / 2 powi ?ex \<le> y / 2 powi ?ex"
      using assms(2) by (simp add: divide_right_mono)
    then have "roundHalfEven (x / 2 powi ?ex) \<le> roundHalfEven (y / 2 powi ?ey)"
      using True by (simp add: roundHalfEven_mono)
    then have "(of_int (roundHalfEven (x / 2 powi ?ex)) :: rat) \<le> of_int (roundHalfEven (y / 2 powi ?ey))"
      by (simp only: of_int_le_iff)
    then show ?thesis
      unfolding rd_pos_eq[OF assms(1)] rd_pos_eq[OF yp] True
      by (simp add: mult_right_mono)
  next
    case False
    then have lt: "?ex + 1 \<le> ?ey" using le by linarith
    have "rd x \<le> 2 ^ 53 * 2 powi ?ex"
    proof -
      have "(of_int (roundHalfEven (x / 2 powi ?ex)) :: rat) \<le> of_int (2 ^ 53)"
        using roundHalfEven_scaled_bounds(2)[OF assms(1)] by (simp only: of_int_le_iff)
      then show ?thesis unfolding rd_pos_eq[OF assms(1)] by (simp add: mult_right_mono)
    qed
    also have "\<dots> = 2 ^ 52 * 2 powi (?ex + 1)"
      using pow2_add[of ?ex 1] by simp
    also have "\<dots> \<le> 2 ^ 52 * 2 powi ?ey"
      using lt by (simp add: pow2_le_iff)
    also have "\<dots> \<le> rd y"
    proof -
      have "(of_int (2 ^ 52) :: rat) \<le> of_int (roundHalfEven (y / 2 powi ?ey))"
        using roundHalfEven_scaled_bounds(1)[OF yp] by (simp only: of_int_le_iff)
      then show ?thesis unfolding rd_pos_eq[OF yp] by (simp add: mult_right_mono)
    qed
    finally show ?thesis .
  qed
qed

lemma rd_mono:
  assumes "0 \<le> x" "x \<le> y"
  shows "rd x \<le> rd y"
proof (cases "x = 0")
  case True
  then show ?thesis using assms rd_nonneg[of y] by (simp add: rd_zero)
next
  case False
  then show ?thesis using assms rd_mono_pos[of x y] by simp
qed

lemma rd_repr:
  assumes "0 < m" "m < 2 ^ 53"
  shows "rd (of_int m * 2 powi k) = of_int m * 2 powi k"
proof -
  let ?x = "of_int m * (2::rat) powi k"
  let ?e = "ilog2 ?x - 52"
  have xp: "0 < ?x" using assms(1) by (simp add: zero_less_mult_iff)
  have y: "?x / 2 powi ?e = of_int m * 2 powi (k - ?e)"
    by (simp add: pow2_diff)
  have ge: "?e \<le> k"
  proof (rule ccontr)
    assume "\<not> ?e \<le> k"
    then have "k - ?e \<le> -1" by linarith
    then have "(2::rat) powi (k - ?e) \<le> 2 powi (-1)" by (simp only: pow2_le_iff)
    then have "(2::rat) powi (k - ?e) \<le> 1/2" by (simp add: power_int_minus)
    then have "of_int m * (2::rat) powi (k - ?e) \<le> of_int m * (1/2)"
      using assms(1) by (intro mult_left_mono) auto
    moreover have "(of_int m :: rat) < of_int (2 ^ 53)" using assms(2) by (simp only: of_int_less_iff)
    ultimately have "?x / 2 powi ?e < 2 ^ 52" unfolding y by simp
    with scaled_bounds(1)[OF xp] show False by simp
  qed
  then have "(2::rat) powi (k - ?e) = of_int (2 ^ nat (k - ?e))"
    by (simp add: power_int_def)
  then have "?x / 2 powi ?e = of_int (m * 2 ^ nat (k - ?e))"
    unfolding y by simp
  then have "roundHalfEven (?x / 2 powi ?e) = m * 2 ^ nat (k - ?e)"
    by (simp only: roundHalfEven_of_int)
  then have "rd ?x = of_int (m * 2 ^ nat (k - ?e)) * 2 powi ?e"
    unfolding rd_pos_eq[OF xp] by simp
  also have "\<dots> = ?x / 2 powi ?e * 2 powi ?e"
    using \<open>?x / 2 powi ?e = of_int (m * 2 ^ nat (k - ?e))\<close> by simp
  also have "\<dots> = ?x" by simp
  finally show ?thesis .
qed

lemma rd_of_int:
  assumes "0 \<le> k" "k < 2 ^ 53"
  shows "rd (of_int k) = of_int k"
proof (cases "k = 0")
  case True
  then show ?thesis by (simp add: rd_zero)
next
  case False
  then show ?thesis using rd_repr[of k 0] assms by simp
qed

lemma rd_idem:
  assumes "0 \<le> x"
  shows "rd (rd x) = rd x"
proof (cases "x = 0")
  case True
  then show ?thesis by (simp add: rd_zero)
next
  case False
  then have xp: "0 < x" using assms by simp
  let ?e = "ilog2 x - 52"
  let ?m = "roundHalfEven (x / 2 powi ?e)"
  note b = roundHalfEven_scaled_bounds[OF xp]
  show ?thesis
  proof (cases "?m = 2 ^ 53")
    case True
    have "rd x = of_int 1 * 2 powi (?e + 53)"
      unfolding rd_pos_eq[OF xp] True pow2_add by simp
    then show ?thesis using rd_repr[of 1 "?e + 53"] by simp
  next
    case False
    then have "?m < 2 ^ 53" "0 < ?m" using b by simp_all
    then show ?thesis using rd_repr[of ?m ?e] unfolding rd_pos_eq[OF xp] by simp
  qed
qed

lemma rd_upper:
  assumes "0 \<le> x"
  shows "rd x \<le> x * (1 + 1 / 2 ^ 53)"
proof (cases "x = 0")
  case True
  then show ?thesis by (simp add: rd_zero)
next
  case False
  then have xp: "0 < x" using assms by simp
  let ?e = "ilog2 x - 52"
  let ?y = "x / 2 powi ?e"
  have "of_int (roundHalfEven ?y) \<le> ?y + 1/2"
    using roundHalfEven_error[of ?y] by linarith
  also have "\<dots> \<le> ?y + ?y / 2 ^ 53"
    using scaled_bounds(1)[OF xp] by simp
  finally have "of_int (roundHalfEven ?y) \<le> ?y + ?y / 2 ^ 53" .
  then have "of_int (roundHalfEven ?y) * 2 powi ?e \<le> (?y + ?y / 2 ^ 53) * 2 powi ?e"
    by (rule mult_right_mono) simp
  also have "\<dots> = x * (1 + 1 / 2 ^ 53)"
    by (simp add: field_simps)
  finally show ?thesis unfolding rd_pos_eq[OF xp] .
qed

section \<open>Deleting the last column\<close>

text \<open>
  Claim C7. On a table with exactly one column \<open>deleteColumn\<close> is refused for every
  column index: the state, that is the headers, every row and the column widths, is
  returned as it was.
\<close>

theorem deleteColumn_single_column_noop:
  "length (headers (data st)) = 1 \<Longrightarrow> deleteColumn st columnIndex = st"
  by (simp add: deleteColumn_def)

theorem deleteColumn_single_column_noop_witness:
  "length (headers (data \<lparr>data = \<lparr>headers = [''Name''], rows = [[''Acme''], [''Beta'']]\<rparr>,
                          columnWidths = [150], selectedRows = {||}, sortConfig = None\<rparr>)) = 1
   \<and> deleteColumn \<lparr>data = \<lparr>headers = [''Name''], rows = [[''Acme''], [''Beta'']]\<rparr>,
                    columnWidths = [150], selectedRows = {||}, sortConfig = None\<rparr> 0
     = \<lparr>data = \<lparr>headers = [''Name''], rows = [[''Acme''], [''Beta'']]\<rparr>,
        columnWidths = [150], selectedRows = {||}, sortConfig = None\<rparr>"
  using deleteColumn_single_column_noop
          [of "\<lparr>data = \<lparr>headers = [''Name''], rows = [[''Acme''], [''Beta'']]\<rparr>,
                columnWidths = [150], selectedRows = {||}, sortConfig = None\<rparr>" 0]
  by simp

section \<open>Select all\<close>

lemma fcard_fset_of_list_upt: "fcard (fset_of_list [0 ..< n]) = n"
  by (simp add: fcard.rep_eq fset_of_list.rep_eq)

lemma all_selected_iff_size:
  assumes "\<forall>i. i |\<in>| S \<longrightarrow> i < n"
  shows "(fcard S = n) = (\<forall>i<n. i |\<in>| S)"
proof
  assume c: "fcard S = n"
  have sub: "fset S \<subseteq> {0 ..< n}" using assms by auto
  have "card (fset S) = card {0 ..< n}" using c by (simp add: fcard.rep_eq)
  then have "fset S = {0 ..< n}" using sub by (intro card_subset_eq) auto
  then show "\<forall>i<n. i |\<in>| S" by auto
next
  assume a: "\<forall>i<n. i |\<in>| S"
  have "fset S = {0 ..< n}" using assms a by auto
  then show "fcard S = n" by (simp add: fcard.rep_eq)
qed

text \<open>
  Claim C8. Select-all is all or nothing: when the size of the selection equals the number
  of rows the new selection is empty, otherwise it holds every row index below the number
  of rows; the table is untouched. For a selection within the rows, its size equals the
  number of rows exactly when every row is selected, and invoked once more after
  selecting all, select-all yields the empty selection.
\<close>

theorem selectAllRows_all_or_nothing:
  "selectedRows (selectAllRows st) =
     (if fcard (selectedRows st) = length (rows (data st)) then {||}
      else fset_of_list [0 ..< length (rows (data st))])
   \<and> data (selectAllRows st) = data st
   \<and> ((\<forall>i. i |\<in>| selectedRows st \<longrightarrow> i < length (rows (data st))) \<longrightarrow>
        (fcard (selectedRows st) = length (rows (data st)))
          = (\<forall>i<length (rows (data st)). i |\<in>| selectedRows st))
   \<and> selectedRows (selectAllRows (st\<lparr>selectedRows := fset_of_list [0 ..< length (rows (data st))]\<rparr>)) = {||}"
  using all_selected_iff_size[of "selectedRows st" "length (rows (data st))"]
  by (simp add: selectAllRows_def fcard_fset_of_list_upt)

theorem selectAllRows_all_or_nothing_witness:
  "fset (selectedRows (exampleState\<lparr>selectedRows := {|0, 1|}\<rparr>))
     \<subseteq> {0 ..< length (rows (data (exampleState\<lparr>selectedRows := {|0, 1|}\<rparr>)))}
   \<and> fcard (selectedRows (exampleState\<lparr>selectedRows := {|0, 1|}\<rparr>))
       = length (rows (data (exampleState\<lparr>selectedRows := {|0, 1|}\<rparr>)))
   \<and> selectedRows (selectAllRows (exampleState\<lparr>selectedRows := {|0, 1|}\<rparr>)) = {||}
   \<and> selectedRows (selectAllRows exampleState) = {|0, 1|}"
proof -
  let ?st = "exampleState\<lparr>selectedRows := {|0, 1|}\<rparr>"
  have len: "length (rows (data ?st)) = 2"
    by (simp add: exampleState_def exampleTable_def)
  have sub: "\<forall>i. i |\<in>| selectedRows ?st \<longrightarrow> i < length (rows (data ?st))"
    unfolding len by simp
  have sub': "fset (selectedRows ?st) \<subseteq> {0 ..< length (rows (data ?st))}"
    unfolding len by simp
  have all: "\<forall>i<length (rows (data ?st)). i |\<in>| selectedRows ?st"
    unfolding len by (auto simp: less_Suc_eq numeral_2_eq_2)
  have none: "fcard (selectedRows exampleState) \<noteq> length (rows (data exampleState))"
    by (simp add: exampleState_def exampleTable_def fcard.rep_eq)
  have upt: "fset_of_list [0 ..< length (rows (data exampleState))] = {|0, 1|}"
    by (simp add: exampleState_def exampleTable_def upt_rec numeral_2_eq_2)
  note t = selectAllRows_all_or_nothing[of ?st]
  from t sub all have size: "fcard (selectedRows ?st) = length (rows (data ?st))"
    by blast
  with t have empty: "selectedRows (selectAllRows ?st) = {||}" by simp
  from selectAllRows_all_or_nothing[of exampleState] none upt
  have full: "selectedRows (selectAllRows exampleState) = {|0, 1|}" by simp
  from sub' size empty full show ?thesis by blast
qed

section \<open>Deleting a sheet\<close>

lemma filter_eq_length_le_one:
  "distinct (map f xs) \<Longrightarrow> length (filter (\<lambda>x. f x = i) xs) \<le> 1"
  by (induction xs) (auto simp: filter_empty_conv image_iff)

lemma filter_neq_length:
  assumes "distinct (map f xs)"
  shows "length xs \<le> Suc (length (filter (\<lambda>x. f x \<noteq> i) xs))"
proof -
  have "length (filter (\<lambda>x. f x = i) xs) + length (filter (\<lambda>x. \<not> f x = i) xs) = length xs"
    by (rule sum_length_filter_compl)
  then show ?thesis using filter_eq_length_le_one[OF assms, of i] by simp
qed

lemma deleteSheet_refused: "length (sheets r) \<le> 1 \<Longrightarrow> deleteSheet i r = Inr r"
  by (simp add: deleteSheet_def)

lemma deleteSheet_result:
  assumes "distinct (map sheet_id (sheets r))" "1 < length (sheets r)"
  shows "\<exists>r'. deleteSheet i r = Inr r'
            \<and> sheets r' = filter (\<lambda>sheet. sheet_id sheet \<noteq> i) (sheets r)
            \<and> sheets r' \<noteq> []
            \<and> activeSheetId r' = (if i = activeSheetId r then sheet_id (hd (sheets r')) else activeSheetId r)"
proof -
  let ?rem = "filter (\<lambda>sheet. sheet_id sheet \<noteq> i) (sheets r)"
  have "length (sheets r) \<le> Suc (length ?rem)" using filter_neq_length[OF assms(1)] .
  then have ne: "?rem \<noteq> []" using assms(2) by auto
  then obtain first rest where c: "?rem = first # rest" by (cases ?rem) auto
  show ?thesis using assms(2) c
    by (cases "i = activeSheetId r") (simp_all add: deleteSheet_def Let_def)
qed

lemma registryStep_keeps_a_sheet:
  assumes "distinct (map sheet_id (sheets r))" "1 \<le> length (sheets r)"
  shows "\<exists>r'. registryStep rt op r = Inr r' \<and> 1 \<le> length (sheets r')"
proof (cases op)
  case (DeleteSheet i)
  show ?thesis
  proof (cases "length (sheets r) \<le> 1")
    case True
    then show ?thesis using assms(2) DeleteSheet by (simp add: deleteSheet_refused)
  next
    case False
    then have "1 < length (sheets r)" by simp
    from deleteSheet_result[OF assms(1) this, of i] obtain r' where
      "deleteSheet i r = Inr r'" "sheets r' \<noteq> []" by blast
    then show ?thesis using DeleteSheet by (cases "sheets r'") auto
  qed
qed (use assms(2) in \<open>simp_all add: addNewSheet_def appendSheet_def Let_def renameSheet_def
       handleDataChange_def handleImportData_def\<close>)

text \<open>
  Claim C9. \<open>deleteSheet\<close> leaves the registry as it is when at most one sheet is left.
  In a registry whose sheet ids are unique (as the data model has it) and that holds a
  sheet, every operation of the registry succeeds and leaves at least one sheet. When more
  than one sheet is left and the deleted sheet is the active one, the sheets other than
  the deleted one remain, in their order, and the first of them becomes active.
\<close>

theorem deleteSheet_keeps_last_sheet:
  "(length (sheets r) \<le> 1 \<longrightarrow> deleteSheet i r = Inr r)
   \<and> (distinct (map sheet_id (sheets r)) \<and> 1 \<le> length (sheets r) \<longrightarrow>
        (\<exists>r'. registryStep rt op r = Inr r' \<and> 1 \<le> length (sheets r')))
   \<and> (distinct (map sheet_id (sheets r)) \<and> 1 < length (sheets r) \<and> i = activeSheetId r \<longrightarrow>
        (\<exists>r'. deleteSheet i r = Inr r'
             \<and> sheets r' = filter (\<lambda>sheet. sheet_id sheet \<noteq> i) (sheets r)
             \<and> sheets r' \<noteq> []
             \<and> activeSheetId r' = sheet_id (hd (sheets r'))))"
proof (intro conjI impI)
  assume "length (sheets r) \<le> 1"
  then show "deleteSheet i r = Inr r" by (rule deleteSheet_refused)
next
  assume "distinct (map sheet_id (sheets r)) \<and> 1 \<le> length (sheets r)"
  then show "\<exists>r'. registryStep rt op r = Inr r' \<and> 1 \<le> length (sheets r')"
    using registryStep_keeps_a_sheet by blast
next
  assume a: "distinct (map sheet_id (sheets r)) \<and> 1 < length (sheets r) \<and> i = activeSheetId r"
  then show "\<exists>r'. deleteSheet i r = Inr r'
             \<and> sheets r' = filter (\<lambda>sheet. sheet_id sheet \<noteq> i) (sheets r)
             \<and> sheets r' \<noteq> []
             \<and> activeSheetId r' = sheet_id (hd (sheets r'))"
    using deleteSheet_result[of r i] by auto
qed

theorem deleteSheet_keeps_last_sheet_witness:
  "(distinct (map sheet_id (sheets exampleRegistry)) \<and> 1 < length (sheets exampleRegistry)
      \<and> ''2'' = activeSheetId exampleRegistry)
   \<and> (\<exists>r'. deleteSheet ''2'' exampleRegistry = Inr r'
           \<and> sheets r' = sheets singleSheetRegistry \<and> activeSheetId r' = ''1'')
   \<and> (length (sheets singleSheetRegistry) \<le> 1
        \<and> deleteSheet ''1'' singleSheetRegistry = Inr singleSheetRegistry)
   \<and> (\<exists>r'. registryStep refRuntime (DeleteSheet ''2'') exampleRegistry = Inr r'
           \<and> 1 \<le> length (sheets r'))"
proof -
  have d: "distinct (map sheet_id (sheets exampleRegistry)) \<and> 1 < length (sheets exampleRegistry)
             \<and> ''2'' = activeSheetId exampleRegistry"
    by (simp add: exampleRegistry_def)
  have d': "distinct (map sheet_id (sheets exampleRegistry)) \<and> 1 \<le> length (sheets exampleRegistry)"
    by (simp add: exampleRegistry_def)
  have one: "length (sheets singleSheetRegistry) \<le> 1"
    by (simp add: singleSheetRegistry_def)
  have f: "filter (\<lambda>sheet. sheet_id sheet \<noteq> ''2'') (sheets exampleRegistry)
           = sheets singleSheetRegistry"
    by (simp add: exampleRegistry_def singleSheetRegistry_def)
  have h: "sheet_id (hd (sheets singleSheetRegistry)) = ''1''"
    by (simp add: singleSheetRegistry_def)
  note t1 = deleteSheet_keeps_last_sheet[of exampleRegistry "''2''" refRuntime "DeleteSheet ''2''"]
  note t2 = deleteSheet_keeps_last_sheet[of singleSheetRegistry "''1''" refRuntime AddNewSheet]
  from t1 d have "\<exists>r'. deleteSheet ''2'' exampleRegistry = Inr r'
             \<and> sheets r' = filter (\<lambda>sheet. sheet_id sheet \<noteq> ''2'') (sheets exampleRegistry)
             \<and> sheets r' \<noteq> []
             \<and> activeSheetId r' = sheet_id (hd (sheets r'))"
    by blast
  then have e: "\<exists>r'. deleteSheet ''2'' exampleRegistry = Inr r'
           \<and> sheets r' = sheets singleSheetRegistry \<and> activeSheetId r' = ''1''"
    unfolding f using h by auto
  from t2 one have r: "deleteSheet ''1'' singleSheetRegistry = Inr singleSheetRegistry"
    by blast
  from t1 d' have s: "\<exists>r'. registryStep refRuntime (DeleteSheet ''2'') exampleRegistry = Inr r'
           \<and> 1 \<le> length (sheets r')"
    by blast
  from d e one r s show ?thesis by blast
qed

section \<open>Objects\<close>

lemma keys_objDefine: "set (map fst (objDefine k v ob)) = insert k (set (map fst ob))"
proof (cases "k \<in> set (map fst ob)")
  case True
  have "map fst (map (\<lambda>(k', v'). if k' = k then (k', v) else (k', v')) ob) = map fst ob"
    by (induction ob) auto
  then have "set (map fst (objDefine k v ob)) = set (map fst ob)"
    using True by (simp only: objDefine_def if_True)
  then show ?thesis using True by (simp only: insert_absorb)
next
  case False
  then show ?thesis by (simp add: objDefine_def)
qed

lemma keys_objSet: "set (map fst (objSet k v ob)) \<subseteq> insert k (set (map fst ob))"
proof (cases "k \<in> set (map fst ob)")
  case True
  have "map fst (map (\<lambda>(k', v'). if k' = k then (k', v) else (k', v')) ob) = map fst ob"
    by (induction ob) auto
  then have "set (map fst (objSet k v ob)) = set (map fst ob)"
    using True by (simp only: objSet_def if_True)
  then show ?thesis by blast
next
  case False
  then show ?thesis by (cases "k = ''__proto__''") (simp_all add: objSet_def subset_insertI)
qed

lemma hasOwn_objDelete: "\<not> hasOwn (objDelete k ob) k"
  by (auto simp: hasOwn_def objDelete_def)

lemma objGet_Own_iff: "objGet ob k = Own v \<longleftrightarrow> map_of ob k = Some v"
  by (simp add: objGet_def split: option.splits)

lemma objGet_not_hasOwn: "\<not> hasOwn ob k \<Longrightarrow> objGet ob k \<noteq> Own v"
  by (auto simp: objGet_Own_iff hasOwn_def dest: map_of_SomeD intro: rev_image_eqI)

lemma objSet_fresh:
  "k \<notin> set (map fst ob) \<Longrightarrow> k \<noteq> ''__proto__'' \<Longrightarrow> objSet k v ob = ob @ [(k, v)]"
  by (simp add: objSet_def)

lemma foldl_objSet_keys:
  "set (map fst (foldl (\<lambda>w (i, h). objSet h (f i) w) acc ps)) \<subseteq> set (map fst acc) \<union> snd ` set ps"
proof (induction ps arbitrary: acc)
  case Nil
  then show ?case by simp
next
  case (Cons p ps)
  obtain i h where p: "p = (i, h)" by (cases p)
  have "set (map fst (foldl (\<lambda>w (i, h). objSet h (f i) w) (objSet h (f i) acc) ps))
          \<subseteq> set (map fst (objSet h (f i) acc)) \<union> snd ` set ps"
    by (rule Cons.IH)
  moreover have "set (map fst (objSet h (f i) acc)) \<subseteq> insert h (set (map fst acc))"
    by (rule keys_objSet)
  ultimately have "set (map fst (foldl (\<lambda>w (i, h). objSet h (f i) w) (objSet h (f i) acc) ps))
          \<subseteq> insert h (set (map fst acc)) \<union> snd ` set ps"
    by blast
  then show ?case unfolding p by simp
qed

lemma foldl_objSet_distinct:
  assumes "distinct (map snd ps)" "snd ` set ps \<inter> set (map fst acc) = {}"
    and "''__proto__'' \<notin> snd ` set ps"
  shows "foldl (\<lambda>w (i, h). objSet h (f i) w) acc ps = acc @ map (\<lambda>(i, h). (h, f i)) ps"
  using assms
proof (induction ps arbitrary: acc)
  case Nil
  then show ?case by simp
next
  case (Cons p ps)
  obtain i h where p: "p = (i, h)" by (cases p)
  have fresh: "h \<notin> set (map fst acc)" using Cons.prems(2) p by auto
  have np: "h \<noteq> ''__proto__''" using Cons.prems(3) p by auto
  have d: "distinct (map snd ps)" using Cons.prems(1) by simp
  have disj: "snd ` set ps \<inter> set (map fst (acc @ [(h, f i)])) = {}"
    using Cons.prems p by (auto simp: image_iff)
  have np': "''__proto__'' \<notin> snd ` set ps" using Cons.prems(3) by auto
  show ?case unfolding p
    using Cons.IH[OF d disj np'] by (simp add: objSet_fresh[OF fresh np])
qed

lemma map_snd_enumerate: "map snd (enumerate k xs) = xs"
  by (induction xs arbitrary: k) simp_all

lemma redistributedWeights_keys: "set (map fst (redistributedWeights cols)) \<subseteq> set cols"
proof -
  have "snd ` set (enumerate 0 cols) = set cols"
    using map_snd_enumerate[of 0 cols] by (metis set_map)
  then show ?thesis
    unfolding redistributedWeights_def Let_def
    using foldl_objSet_keys[of _ "[]" "enumerate 0 cols"] by simp
qed

lemma mset_objEntries: "mset (objEntries ob) = mset ob"
proof -
  have n: "(\<lambda>(k, v). \<not> isArrayIndex k) = (\<lambda>x. \<not> (case x of (k, v) \<Rightarrow> isArrayIndex k))"
    by (simp add: fun_eq_iff split_def)
  show ?thesis
    unfolding objEntries_def n by simp
qed

lemma set_objValues: "set (objValues ob) = snd ` set ob"
proof -
  have "set (objEntries ob) = set ob"
    using mset_objEntries[of ob] by (metis set_mset_mset)
  then show ?thesis by (simp add: objValues_def)
qed

lemma sum_list_objValues:
  fixes ob :: "rat obj"
  shows "sum_list (objValues ob) = sum_list (map snd ob)"
proof -
  have "mset (objValues ob) = mset (map snd ob)"
    unfolding objValues_def using mset_objEntries[of ob] by (metis mset_map)
  then have "sum_mset (mset (objValues ob)) = sum_mset (mset (map snd ob))" by simp
  then show ?thesis by (simp only: sum_mset_sum_list)
qed

lemma set_objKeys: "set (objKeys ob) = fst ` set ob"
proof -
  have "set (objEntries ob) = set ob"
    using mset_objEntries[of ob] by (metis set_mset_mset)
  then show ?thesis by (simp add: objKeys_def)
qed

section \<open>Removing a column from the score\<close>

text \<open>
  Claim C2, as stated, fails: \<open>removeColumn\<close> does not touch the per-value weights.
  In the example configuration the values of \<^verbatim>\<open>Size\<close> keep their weights when the
  column is removed, also after the effect on the included columns has run.
\<close>

theorem removeColumn_value_weights_counterexample:
  "objGet (subcategoryWeights (removeColumn ''Size'' exampleScoring)) ''Size''
     = Own [(''Large'', 100), (''Small'', 0)]
   \<and> objGet (subcategoryWeights (weightsEffect (removeColumn ''Size'' exampleScoring))) ''Size''
     = Own [(''Large'', 100), (''Small'', 0)]"
  by (simp add: removeColumn_def weightsEffect_def exampleScoring_def objGet_def)

text \<open>
  Claim C2, amended. Removing a header takes it out of the included columns and deletes
  its column weight: the weights have no entry of their own for it any more, and that
  stays so when the effect on the included columns has run; the per-value weights are left
  as they were.
\<close>

theorem removeColumn_deletes_column_weight:
  "header \<notin> set (includedColumns (removeColumn header st))
   \<and> \<not> hasOwn (weights (removeColumn header st)) header
   \<and> \<not> hasOwn (weights (weightsEffect (removeColumn header st))) header
   \<and> subcategoryWeights (removeColumn header st) = subcategoryWeights st
   \<and> subcategoryWeights (weightsEffect (removeColumn header st)) = subcategoryWeights st"
proof -
  have inc: "header \<notin> set (includedColumns (removeColumn header st))"
    by (simp add: removeColumn_def)
  have w: "\<not> hasOwn (weights (removeColumn header st)) header"
    by (simp add: removeColumn_def hasOwn_objDelete)
  have "header \<notin> set (map fst (redistributedWeights (includedColumns (removeColumn header st))))"
    using redistributedWeights_keys[of "includedColumns (removeColumn header st)"] inc by blast
  then have "\<not> hasOwn (redistributedWeights (includedColumns (removeColumn header st))) header"
    by (simp only: hasOwn_def not_False_eq_True)
  then have e: "\<not> hasOwn (weights (weightsEffect (removeColumn header st))) header"
    using w by (simp add: weightsEffect_def)
  show ?thesis using inc w e by (simp add: removeColumn_def weightsEffect_def)
qed

section \<open>Equal redistribution of the column weights\<close>

lemma rd_of_nat: "k < 2 ^ 53 \<Longrightarrow> rd (of_nat k) = of_nat k"
  using rd_of_int[of "int k"] by simp

lemma floor_hundred_div:
  assumes "0 < n"
  shows "jsMathFloor (jsDiv 100 (of_nat n)) = of_nat (100 div n)"
proof -
  define q where "q = 100 div n"
  define r where "r = 100 mod n"
  have n0: "(0::rat) < of_nat n" using assms by simp
  have eq: "q * n + r = 100" unfolding q_def r_def by simp
  have rlt: "r < n" unfolding r_def using assms by simp
  have r100: "r \<le> 100" unfolding r_def by (rule mod_less_eq_dividend)
  have q100: "q \<le> 100" unfolding q_def by (rule div_le_dividend)
  have "q * n \<le> 100" using eq by linarith
  then have "(of_nat (q * n) :: rat) \<le> of_nat 100" by (simp only: of_nat_le_iff)
  then have lo: "(of_nat q :: rat) \<le> 100 / of_nat n"
    using n0 by (simp add: pos_le_divide_eq)
  have "128 * r \<le> 127 * n" using rlt r100 by (cases "n \<le> 128") linarith+
  then have "128 * (q * n) + 128 * r \<le> 128 * (q * n) + 127 * n" by simp
  moreover have "(128 * q + 127) * n = 128 * (q * n) + 127 * n" by (simp add: algebra_simps)
  moreover have "128 * (q * n + r) = 128 * (q * n) + 128 * r" by (simp add: algebra_simps)
  ultimately have "128 * (q * n + r) \<le> (128 * q + 127) * n" by (simp only:)
  then have "128 * 100 \<le> (128 * q + 127) * n" unfolding eq .
  then have "(of_nat (128 * 100) :: rat) \<le> of_nat ((128 * q + 127) * n)" by (simp only: of_nat_le_iff)
  then have "(100::rat) * 128 \<le> (128 * of_nat q + 127) * of_nat n" by simp
  then have "(100::rat) \<le> (of_nat q + 127 / 128) * of_nat n" by (simp add: algebra_simps)
  then have hi: "(100::rat) / of_nat n \<le> of_nat q + 127 / 128"
    using n0 by (simp add: pos_divide_le_eq)
  have "rd (of_nat q) \<le> rd (100 / of_nat n)" using lo by (intro rd_mono) simp_all
  moreover have "rd (of_nat q) = of_nat q" by (rule rd_of_nat) (rule le_less_trans[OF q100], simp)
  ultimately have lo': "of_nat q \<le> rd (100 / of_nat n)" by simp
  have m: "0 < 128 * int q + 127" "128 * int q + 127 < 2 ^ 53" using q100 by simp_all
  have repr: "rd (of_int (128 * int q + 127) * 2 powi (-7)) = of_int (128 * int q + 127) * 2 powi (-7)"
    using m by (rule rd_repr)
  have val: "of_int (128 * int q + 127) * 2 powi (-7) = (of_nat q :: rat) + 127 / 128"
    by (simp add: power_int_minus field_simps)
  have "rd (100 / of_nat n) \<le> rd (of_nat q + 127 / 128)"
    using hi n0 by (intro rd_mono) simp_all
  then have hi': "rd (100 / of_nat n) \<le> of_nat q + 127 / 128"
    using repr unfolding val by simp
  have "\<lfloor>rd (100 / of_nat n)\<rfloor> = int q"
    using lo' hi' by (intro floor_unique) simp_all
  then show ?thesis by (simp add: jsMathFloor_def jsDiv_def q_def)
qed

lemma remainder_hundred:
  assumes "0 < n"
  shows "jsSub 100 (jsMul (of_nat (100 div n)) (of_nat n)) = of_nat (100 - 100 div n * n)"
proof -
  have le: "100 div n * n \<le> 100" by simp
  have "jsMul (of_nat (100 div n)) (of_nat n) = rd (of_nat (100 div n * n))"
    by (simp add: jsMul_def)
  also have "\<dots> = of_nat (100 div n * n)"
    by (rule rd_of_nat) (rule le_less_trans[OF le], simp)
  finally have m: "jsMul (of_nat (100 div n)) (of_nat n) = of_nat (100 div n * n)" .
  have "(100::rat) - of_nat (100 div n * n) = of_nat (100 - 100 div n * n)"
    using le by (simp add: of_nat_diff)
  then have "jsSub 100 (of_nat (100 div n * n)) = rd (of_nat (100 - 100 div n * n))"
    by (simp add: jsSub_def)
  also have "\<dots> = of_nat (100 - 100 div n * n)"
  proof (rule rd_of_nat)
    have "100 - 100 div n * n \<le> 100" by simp
    then show "100 - 100 div n * n < 2 ^ 53" by (rule le_less_trans) simp
  qed
  finally show ?thesis unfolding m .
qed

lemma foldl_jsAdd_Nats:
  fixes xs :: "rat list"
  shows "(\<And>x. x \<in> set xs \<Longrightarrow> x \<in> \<nat>) \<Longrightarrow> a \<in> \<nat> \<Longrightarrow> a + sum_list xs < 2 ^ 53 \<Longrightarrow>
         foldl (\<lambda>sum weight. jsAdd sum weight) a xs = a + sum_list xs"
proof (induction xs arbitrary: a)
  case Nil
  then show ?case by simp
next
  case (Cons x xs)
  have xn: "x \<in> \<nat>" using Cons.prems(1)[of x] by simp
  have an: "a + x \<in> \<nat>" using Cons.prems(2) xn by (rule Nats_add)
  then obtain k :: nat where k: "a + x = of_nat k" by (rule Nats_cases)
  have rest: "0 \<le> sum_list xs"
  proof (rule sum_list_nonneg)
    fix y assume "y \<in> set xs"
    then have "y \<in> \<nat>" using Cons.prems(1)[of y] by simp
    then show "0 \<le> y" by (auto elim: Nats_cases)
  qed
  have "(of_nat k :: rat) < 2 ^ 53" using Cons.prems(3) rest k by simp
  then have "(of_nat k :: rat) < of_nat (2 ^ 53)" by simp
  then have "k < 2 ^ 53" by (simp only: of_nat_less_iff)
  then have "rd (of_nat k) = of_nat k" by (rule rd_of_nat)
  then have s: "jsAdd a x = a + x" unfolding jsAdd_def k .
  have "foldl (\<lambda>sum weight. jsAdd sum weight) (a + x) xs = (a + x) + sum_list xs"
    using Cons.prems an by (intro Cons.IH) (simp_all add: add.assoc)
  then show ?case by (simp add: s add.assoc)
qed

lemma sum_later_weights:
  "sum_list (map (\<lambda>(i, h). q + (if i = 0 then r else 0)) (enumerate (Suc k) cs)) = length cs * (q::nat)"
  by (induction cs arbitrary: k) simp_all

lemma redistributedWeights_distinct:
  assumes "distinct cols" "cols \<noteq> []" "''__proto__'' \<notin> set cols"
  shows "redistributedWeights cols =
           map (\<lambda>(i, h). (h, of_nat (100 div length cols + (if i = 0 then 100 - 100 div length cols * length cols else 0))))
               (enumerate 0 cols)"
proof -
  have n: "0 < length cols" using assms(2) by simp
  have d: "distinct (map snd (enumerate 0 cols))" using assms(1) by (simp add: map_snd_enumerate)
  have "snd ` set (enumerate 0 cols) = set cols"
    using map_snd_enumerate[of 0 cols] by (metis set_map)
  then have np: "''__proto__'' \<notin> snd ` set (enumerate 0 cols)" using assms(3) by simp
  have v: "jsAdd (of_nat (100 div length cols)) (if i = 0 then of_nat (100 - 100 div length cols * length cols) else 0)
           = of_nat (100 div length cols + (if i = 0 then 100 - 100 div length cols * length cols else 0))" for i :: nat
  proof -
    define q where "q = 100 div length cols"
    define r where "r = 100 - 100 div length cols * length cols"
    have q: "q \<le> 100" unfolding q_def by (rule div_le_dividend)
    have r: "r \<le> 100" unfolding r_def by simp
    have "q + r \<le> 200" using q r by linarith
    then have "q + r < 2 ^ 53" by (rule le_less_trans) simp
    then have 1: "rd (of_nat (q + r)) = of_nat (q + r)" by (rule rd_of_nat)
    have "q < 2 ^ 53" by (rule le_less_trans[OF q]) simp
    then have 2: "rd (of_nat q) = of_nat q" by (rule rd_of_nat)
    have "jsAdd (of_nat q) (if i = 0 then of_nat r else 0) = of_nat (q + (if i = 0 then r else 0))"
      using 1 2 by (cases "i = 0") (simp_all add: jsAdd_def)
    then show ?thesis unfolding q_def r_def .
  qed
  show ?thesis
    unfolding redistributedWeights_def Let_def floor_hundred_div[OF n] remainder_hundred[OF n]
    by (subst foldl_objSet_distinct[OF d _ np]) (simp_all add: v)
qed

lemma totalWeight_redistributed:
  assumes "distinct cols" "cols \<noteq> []" "''__proto__'' \<notin> set cols"
  shows "foldl (\<lambda>sum weight. jsAdd sum weight) 0 (objValues (redistributedWeights cols)) = 100"
proof -
  obtain c cs where cols: "cols = c # cs" using assms(2) by (cases cols) auto
  define n where "n = length cols"
  define q where "q = 100 div n"
  define r where "r = 100 - q * n"
  have n: "n = Suc (length cs)" unfolding n_def cols by simp
  have qn: "q * n \<le> 100" unfolding q_def by simp
  let ?ks = "map (\<lambda>(i, h). q + (if i = 0 then r else 0)) (enumerate 0 cols)"
  have vals: "map snd (redistributedWeights cols) = map of_nat ?ks"
    unfolding redistributedWeights_distinct[OF assms] q_def r_def n_def
    by (simp add: split_def comp_def)
  have "sum_list ?ks = q + r + length cs * q"
    unfolding cols by (simp add: sum_later_weights)
  also have "\<dots> = q * n + r" unfolding n by simp
  also have "\<dots> = 100" unfolding r_def using qn by simp
  finally have sum: "sum_list ?ks = 100" .
  have g: "sum_list (map (of_nat :: nat \<Rightarrow> rat) ks) = of_nat (sum_list ks)" for ks
    by (induction ks) simp_all
  have total: "sum_list (objValues (redistributedWeights cols)) = 100"
    unfolding sum_list_objValues vals g sum by simp
  have nats: "x \<in> \<nat>" if "x \<in> set (objValues (redistributedWeights cols))" for x
  proof -
    have "x \<in> set (map snd (redistributedWeights cols))"
      using that unfolding set_objValues by simp
    then show ?thesis unfolding vals by auto
  qed
  have "foldl (\<lambda>sum weight. jsAdd sum weight) 0 (objValues (redistributedWeights cols))
          = 0 + sum_list (objValues (redistributedWeights cols))"
    using nats by (intro foldl_jsAdd_Nats) (simp_all add: total)
  then show ?thesis using total by simp
qed

text \<open>
  Equal redistribution when no included column is named \<^verbatim>\<open>__proto__\<close>. When the effect
  on the included columns runs on \<open>n \<ge> 1\<close> distinct included columns, the first column
  (in inclusion order) gets the weight \<open>floor (100 / n) + (100 - floor (100 / n) * n)\<close>
  and every other one \<open>floor (100 / n)\<close>; the weights have exactly the included columns as
  keys, their total is 100 and the configuration is valid. This holds for every
  \<open>n \<ge> 1\<close>, in particular for \<open>n\<close> from 1 to 20.
\<close>

theorem weightsEffect_equal_redistribution:
  assumes "distinct (includedColumns st)" "includedColumns st \<noteq> []"
    and "''__proto__'' \<notin> set (includedColumns st)"
  shows "objGet (weights (weightsEffect st)) (includedColumns st ! 0)
           = Own (of_nat (100 div length (includedColumns st)
                           + (100 - 100 div length (includedColumns st) * length (includedColumns st))))
       \<and> (\<forall>i. 0 < i \<and> i < length (includedColumns st) \<longrightarrow>
             objGet (weights (weightsEffect st)) (includedColumns st ! i)
               = Own (of_nat (100 div length (includedColumns st))))
       \<and> set (objKeys (weights (weightsEffect st))) = set (includedColumns st)
       \<and> totalWeight (weightsEffect st) = 100
       \<and> isValidWeight (weightsEffect st)"
proof -
  let ?cols = "includedColumns st"
  let ?n = "length ?cols"
  let ?w = "\<lambda>i::nat. 100 div ?n + (if i = 0 then 100 - 100 div ?n * ?n else 0)"
  have pos: "0 < ?n" using assms(2) by simp
  have w: "weights (weightsEffect st) = map (\<lambda>(i, h). (h, of_nat (?w i))) (enumerate 0 ?cols)"
    using pos by (simp add: weightsEffect_def redistributedWeights_distinct[OF assms])
  have inc: "includedColumns (weightsEffect st) = ?cols"
    by (simp add: weightsEffect_def)
  have keys: "map fst (weights (weightsEffect st)) = ?cols"
    unfolding w using map_snd_enumerate[of 0 ?cols] by (simp add: split_def comp_def)
  have dk: "distinct (map fst (weights (weightsEffect st)))" unfolding keys using assms(1) .
  have okeys: "set (objKeys (weights (weightsEffect st))) = set ?cols"
    unfolding set_objKeys using keys by (metis set_map)
  have at: "objGet (weights (weightsEffect st)) (?cols ! i) = Own (of_nat (?w i))" if "i < ?n" for i
  proof -
    have "(weights (weightsEffect st)) ! i = (?cols ! i, of_nat (?w i))"
      unfolding w using that by (simp add: nth_enumerate_eq)
    moreover have "i < length (weights (weightsEffect st))" unfolding w using that by simp
    ultimately have "(?cols ! i, of_nat (?w i)) \<in> set (weights (weightsEffect st))"
      by (metis nth_mem)
    then have "map_of (weights (weightsEffect st)) (?cols ! i) = Some (of_nat (?w i))"
      using dk by (rule map_of_is_SomeI[rotated])
    then show ?thesis by (simp only: objGet_Own_iff)
  qed
  have first: "objGet (weights (weightsEffect st)) (?cols ! 0)
                 = Own (of_nat (100 div ?n + (100 - 100 div ?n * ?n)))"
    using at[OF pos] by simp
  have others: "\<forall>i. 0 < i \<and> i < ?n \<longrightarrow>
                  objGet (weights (weightsEffect st)) (?cols ! i) = Own (of_nat (100 div ?n))"
    using at by simp
  have total: "totalWeight (weightsEffect st) = 100"
    using pos totalWeight_redistributed[OF assms] by (simp add: totalWeight_def weightsEffect_def)
  have valid: "isValidWeight (weightsEffect st)"
    using total pos inc by (simp add: isValidWeight_def)
  show ?thesis using first others okeys total valid by blast
qed

theorem weightsEffect_equal_redistribution_witness:
  "distinct (includedColumns (exampleScoring\<lparr>includedColumns := [''Name'', ''Size'', ''City'']\<rparr>))
   \<and> includedColumns (exampleScoring\<lparr>includedColumns := [''Name'', ''Size'', ''City'']\<rparr>) \<noteq> []
   \<and> ''__proto__'' \<notin> set (includedColumns (exampleScoring\<lparr>includedColumns := [''Name'', ''Size'', ''City'']\<rparr>))
   \<and> objGet (weights (weightsEffect (exampleScoring\<lparr>includedColumns := [''Name'', ''Size'', ''City'']\<rparr>))) ''Name'' = Own 34
   \<and> objGet (weights (weightsEffect (exampleScoring\<lparr>includedColumns := [''Name'', ''Size'', ''City'']\<rparr>))) ''Size'' = Own 33
   \<and> objGet (weights (weightsEffect (exampleScoring\<lparr>includedColumns := [''Name'', ''Size'', ''City'']\<rparr>))) ''City'' = Own 33
   \<and> totalWeight (weightsEffect (exampleScoring\<lparr>includedColumns := [''Name'', ''Size'', ''City'']\<rparr>)) = 100"
proof -
  let ?st = "exampleScoring\<lparr>includedColumns := [''Name'', ''Size'', ''City'']\<rparr>"
  have d: "distinct (includedColumns ?st)" by simp
  have ne: "includedColumns ?st \<noteq> []" by simp
  have np: "''__proto__'' \<notin> set (includedColumns ?st)" by simp
  have len: "length (includedColumns ?st) = 3" by simp
  have n0: "includedColumns ?st ! 0 = ''Name''" by simp
  have n1: "includedColumns ?st ! 1 = ''Size''" by simp
  have n2: "includedColumns ?st ! 2 = ''City''" by simp
  note t = weightsEffect_equal_redistribution[OF d ne np, unfolded len n0]
  from t have a: "objGet (weights (weightsEffect ?st)) ''Name'' = Own 34" by simp
  from t have "objGet (weights (weightsEffect ?st)) (includedColumns ?st ! 1) = Own (of_nat (100 div 3))"
    by (metis zero_less_one one_less_numeral_iff semiring_norm(77))
  then have b: "objGet (weights (weightsEffect ?st)) ''Size'' = Own 33" unfolding n1 by simp
  from t have "objGet (weights (weightsEffect ?st)) (includedColumns ?st ! 2) = Own (of_nat (100 div 3))"
    by (metis zero_less_numeral numeral_less_iff semiring_norm(79) lessI numeral_3_eq_3 numeral_2_eq_2)
  then have c: "objGet (weights (weightsEffect ?st)) ''City'' = Own 33" unfolding n2 by simp
  from t have e: "totalWeight (weightsEffect ?st) = 100" by simp
  from d ne np a b c e show ?thesis by blast
qed

text \<open>
  Claim C3 against the code. A column named \<^verbatim>\<open>__proto__\<close> gets no weight: the assignment
  \<^verbatim>\<open>newWeights[header] = ...\<close> of the effect reaches the setter that plain objects
  inherit, which ignores a number. Starting from the modal as opened, including the
  columns \<^verbatim>\<open>__proto__\<close> and \<^verbatim>\<open>Company\<close> leaves the weights with the one entry
  \<^verbatim>\<open>Company\<close>: 50 instead of the two entries of 50 each that the claim describes; the total
  is 50, not 100, and the configuration is not valid.
\<close>

theorem weightsEffect_proto_column_gets_no_weight:
  "includedColumns (weightsEffect (addColumn_scoring ''Company''
       (weightsEffect (addColumn_scoring ''__proto__'' initialScoring)))) = [''__proto__'', ''Company'']
   \<and> objEntries (weights (weightsEffect (addColumn_scoring ''Company''
       (weightsEffect (addColumn_scoring ''__proto__'' initialScoring))))) = [(''Company'', 50)]
   \<and> hasOwn (weights (weightsEffect (addColumn_scoring ''Company''
       (weightsEffect (addColumn_scoring ''__proto__'' initialScoring))))) ''__proto__'' = False
   \<and> totalWeight (weightsEffect (addColumn_scoring ''Company''
       (weightsEffect (addColumn_scoring ''__proto__'' initialScoring)))) = 50
   \<and> isValidWeight (weightsEffect (addColumn_scoring ''Company''
       (weightsEffect (addColumn_scoring ''__proto__'' initialScoring)))) = False"
  by code_simp

section \<open>Arrays\<close>

lemma length_spliceInsert: "length (spliceInsert i v xs) = Suc (length xs)"
  by (simp add: spliceInsert_def)

lemma length_filter_zip_fst:
  "length is = length xs \<Longrightarrow> length (filter (\<lambda>(i, x). P i) (zip is xs)) = length (filter P is)"
  by (induction "is" xs rule: list_induct2) simp_all

lemma length_filterIndex: "length (filterIndex P xs) = length (filter P [0 ..< length xs])"
  by (simp add: filterIndex_def enumerate_eq_zip length_filter_zip_fst)

lemma length_moveElement:
  "i < length xs \<Longrightarrow> j < length xs \<Longrightarrow> length (moveElement xs i j) = length xs"
  by (simp add: moveElement_def Let_def)

lemma moveElement_rest:
  "moveElement xs i j = take j (take i xs @ drop (Suc i) xs) @ [xs ! i] @ drop j (take i xs @ drop (Suc i) xs)"
  by (simp add: moveElement_def Let_def)

lemma mset_moveElement:
  assumes "i < length xs"
  shows "mset (moveElement xs i j) = mset xs"
proof -
  define rest where "rest = take i xs @ drop (Suc i) xs"
  have "mset (moveElement xs i j) = mset (take j rest @ drop j rest) + {#xs ! i#}"
    unfolding moveElement_rest rest_def[symmetric] by (simp only: mset_append mset.simps) simp
  also have "\<dots> = mset rest + {#xs ! i#}" by simp
  also have "\<dots> = mset (take i xs @ [xs ! i] @ drop (Suc i) xs)" unfolding rest_def by simp
  also have "take i xs @ [xs ! i] @ drop (Suc i) xs = xs"
    using assms by (simp add: id_take_nth_drop[symmetric])
  finally show ?thesis .
qed

lemma moveElement_nth_target:
  assumes "i < length xs" "j < length xs"
  shows "moveElement xs i j ! j = xs ! i"
proof -
  define rest where "rest = take i xs @ drop (Suc i) xs"
  have "length rest = length xs - 1" unfolding rest_def using assms(1) by simp
  then have "length (take j rest) = j" using assms(2) by simp
  then show ?thesis unfolding moveElement_rest rest_def[symmetric] by (simp add: nth_append)
qed

lemma moveElement_inverse:
  assumes "i < length xs" "j < length xs"
  shows "moveElement (moveElement xs i j) j i = xs"
proof -
  define rest where "rest = take i xs @ drop (Suc i) xs"
  define ys where "ys = moveElement xs i j"
  have lr: "length rest = length xs - 1" unfolding rest_def using assms(1) by simp
  have lt: "length (take j rest) = j" using lr assms(2) by simp
  have ys: "ys = take j rest @ [xs ! i] @ drop j rest"
    unfolding ys_def moveElement_rest rest_def ..
  have nth: "ys ! j = xs ! i"
    unfolding ys_def using assms by (rule moveElement_nth_target)
  have tk: "take j ys = take j rest" unfolding ys using lt by simp
  have dr: "drop (Suc j) ys = drop j rest" unfolding ys using lt by simp
  have restore: "take j ys @ drop (Suc j) ys = rest" unfolding tk dr by simp
  have ti: "take i rest = take i xs" unfolding rest_def using assms(1) by simp
  have di: "drop i rest = drop (Suc i) xs" unfolding rest_def using assms(1) by simp
  have "moveElement ys j i = take i rest @ [xs ! i] @ drop i rest"
    unfolding moveElement_rest[of ys] restore nth ..
  also have "\<dots> = xs" unfolding ti di using assms(1) by (simp add: id_take_nth_drop[symmetric])
  finally show ?thesis unfolding ys_def .
qed

lemma arrayMove_in_range:
  "i < length xs \<Longrightarrow> j < length xs \<Longrightarrow> arrayMove xs (int i) (int j) = Some (moveElement xs i j)"
  by (simp add: arrayMove_def)

lemma findIndex_upper: "findIndex P xs < int (length xs)"
  by (induction xs) (simp_all add: Let_def)

lemma findIndex_found: "x \<in> set xs \<Longrightarrow> 0 \<le> findIndex (\<lambda>h. h = x) xs"
  by (induction xs) (auto simp: Let_def)

lemma findIndex_distinct:
  "distinct xs \<Longrightarrow> i < length xs \<Longrightarrow> findIndex (\<lambda>h. h = xs ! i) xs = int i"
proof (induction xs arbitrary: i)
  case Nil
  then show ?case by simp
next
  case (Cons x xs)
  show ?case
  proof (cases i)
    case 0
    then show ?thesis by simp
  next
    case (Suc k)
    then have k: "k < length xs" using Cons.prems(2) by simp
    have "xs ! k \<in> set xs" using k by simp
    then have "x \<noteq> xs ! k" using Cons.prems(1) by auto
    then show ?thesis using Cons.IH[of k] Cons.prems(1) k Suc by (simp add: Let_def)
  qed
qed

lemma those_map_Some:
  "(\<And>x. x \<in> set xs \<Longrightarrow> f x = Some (g x)) \<Longrightarrow> those (map f xs) = Some (map g xs)"
  by (induction xs) simp_all

lemma set_insertSorted: "set (insertSorted gt x ys) = insert x (set ys)"
  by (induction ys) auto

lemma mset_insertSorted: "mset (insertSorted gt x ys) = add_mset x (mset ys)"
  by (induction ys) simp_all

lemma mset_jsSort: "mset (jsSort compare xs) = mset xs"
  unfolding jsSort_def by (induction xs) (simp_all add: mset_insertSorted)

lemma set_jsSort: "set (jsSort compare xs) = set xs"
  using mset_jsSort[of compare xs] by (metis set_mset_mset)

section \<open>Moving a column\<close>

lemma moveElement_same: "i < length xs \<Longrightarrow> moveElement xs i i = xs"
  by (simp add: moveElement_rest id_take_nth_drop[symmetric])

lemma handleDragEnd_moves:
  assumes inv: "tableInv (data st)" "widthsInv st"
    and ne: "activeId \<noteq> overId"
    and old: "findIndex (\<lambda>header. header = activeId) (headers (data st)) = int i"
    and new: "findIndex (\<lambda>header. header = overId) (headers (data st)) = int j"
  shows "handleDragEnd st activeId (Some overId) =
           Some (st\<lparr>columnWidths := moveElement (columnWidths st) i j,
                    data := \<lparr>headers = moveElement (headers (data st)) i j,
                             rows = map (\<lambda>row. moveElement row i j) (rows (data st))\<rparr>\<rparr>)"
proof -
  have i: "i < length (headers (data st))"
    using findIndex_upper[of "\<lambda>header. header = activeId" "headers (data st)"] old by simp
  have j: "j < length (headers (data st))"
    using findIndex_upper[of "\<lambda>header. header = overId" "headers (data st)"] new by simp
  have h: "arrayMove (headers (data st)) (int i) (int j) = Some (moveElement (headers (data st)) i j)"
    using i j by (rule arrayMove_in_range)
  have w: "arrayMove (columnWidths st) (int i) (int j) = Some (moveElement (columnWidths st) i j)"
    using i j inv(2) by (simp add: arrayMove_in_range widthsInv_def)
  have "\<And>row. row \<in> set (rows (data st)) \<Longrightarrow>
          arrayMove row (int i) (int j) = Some (moveElement row i j)"
    using i j inv(1) by (simp add: arrayMove_in_range tableInv_def)
  then have r: "those (map (\<lambda>row. arrayMove row (int i) (int j)) (rows (data st)))
                = Some (map (\<lambda>row. moveElement row i j) (rows (data st)))"
    by (rule those_map_Some)
  show ?thesis using ne by (simp add: handleDragEnd_def old new h w r)
qed

lemma moveColumn_moves:
  assumes inv: "tableInv (data st)" "widthsInv st"
    and d: "distinct (headers (data st))"
    and i: "i < length (headers (data st))" and j: "j < length (headers (data st))"
  shows "moveColumn st i j =
           Some (st\<lparr>columnWidths := moveElement (columnWidths st) i j,
                    data := \<lparr>headers = moveElement (headers (data st)) i j,
                             rows = map (\<lambda>row. moveElement row i j) (rows (data st))\<rparr>\<rparr>)"
proof (cases "i = j")
  case True
  have w: "moveElement (columnWidths st) j j = columnWidths st"
    using j inv(2) by (simp add: moveElement_same widthsInv_def)
  have r: "map (\<lambda>row. moveElement row j j) (rows (data st)) = rows (data st)"
    using j inv(1) by (simp add: moveElement_same tableInv_def map_idI)
  show ?thesis unfolding True
    using j by (simp add: moveColumn_def handleDragEnd_def moveElement_same w r)
next
  case False
  then have ne: "headers (data st) ! i \<noteq> headers (data st) ! j"
    using d i j by (simp add: nth_eq_iff_index_eq)
  show ?thesis unfolding moveColumn_def
    using inv ne findIndex_distinct[OF d i] findIndex_distinct[OF d j]
    by (rule handleDragEnd_moves)
qed

text \<open>
  Claim C6. In a table with pairwise distinct headers (whose rows and widths are as long
  as the header row, as the data model has it), moving the column at a valid index
  \<open>from\<close> to a valid index \<open>to\<close> succeeds and reorders the headers by array-move;
  moving it back from \<open>to\<close> to \<open>from\<close> succeeds as well and gives back the original
  state: the header order, the cells of every row and the column widths.
\<close>

theorem moveColumn_then_inverse_restores:
  assumes "distinct (headers (data st))" "tableInv (data st)" "widthsInv st"
    and "fromIndex < length (headers (data st))" "toIndex < length (headers (data st))"
  shows "\<exists>st1. moveColumn st fromIndex toIndex = Some st1
             \<and> headers (data st1) = moveElement (headers (data st)) fromIndex toIndex
             \<and> moveColumn st1 toIndex fromIndex = Some st"
proof -
  let ?i = fromIndex and ?j = toIndex
  define st1 where "st1 = st\<lparr>columnWidths := moveElement (columnWidths st) ?i ?j,
                    data := \<lparr>headers = moveElement (headers (data st)) ?i ?j,
                             rows = map (\<lambda>row. moveElement row ?i ?j) (rows (data st))\<rparr>\<rparr>"
  have m1: "moveColumn st ?i ?j = Some st1"
    unfolding st1_def using assms(2,3,1,4,5) by (rule moveColumn_moves)
  have h1: "headers (data st1) = moveElement (headers (data st)) ?i ?j"
    by (simp add: st1_def)
  have len1: "length (headers (data st1)) = length (headers (data st))"
    unfolding h1 using assms(4,5) by (rule length_moveElement)
  have d1: "distinct (headers (data st1))"
    unfolding h1 using mset_moveElement[OF assms(4), of ?j] assms(1)
    by (metis mset_eq_imp_distinct_iff)
  have inv1: "tableInv (data st1)"
    using assms(2,4,5) by (simp add: st1_def tableInv_def length_moveElement)
  have w1: "widthsInv st1"
    using assms(3,4,5) by (simp add: st1_def widthsInv_def length_moveElement)
  have i1: "?i < length (headers (data st1))" and j1: "?j < length (headers (data st1))"
    using assms(4,5) len1 by simp_all
  have m2: "moveColumn st1 ?j ?i =
           Some (st1\<lparr>columnWidths := moveElement (columnWidths st1) ?j ?i,
                    data := \<lparr>headers = moveElement (headers (data st1)) ?j ?i,
                             rows = map (\<lambda>row. moveElement row ?j ?i) (rows (data st1))\<rparr>\<rparr>)"
    using inv1 w1 d1 j1 i1 by (rule moveColumn_moves)
  have hb: "moveElement (headers (data st1)) ?j ?i = headers (data st)"
    unfolding h1 using assms(4,5) by (rule moveElement_inverse)
  have wb: "moveElement (columnWidths st1) ?j ?i = columnWidths st"
    using assms(3,4,5) by (simp add: st1_def widthsInv_def moveElement_inverse)
  have rb: "map (\<lambda>row. moveElement row ?j ?i) (rows (data st1)) = rows (data st)"
    using assms(2,4,5) by (simp add: st1_def tableInv_def moveElement_inverse map_idI)
  have "st1\<lparr>columnWidths := columnWidths st,
            data := \<lparr>headers = headers (data st), rows = rows (data st)\<rparr>\<rparr> = st"
    by (simp add: st1_def)
  then have "moveColumn st1 ?j ?i = Some st" unfolding m2 hb wb rb by simp
  then show ?thesis using m1 h1 by blast
qed

theorem moveColumn_then_inverse_restores_witness:
  "distinct (headers (data exampleState)) \<and> tableInv (data exampleState) \<and> widthsInv exampleState
   \<and> 0 < length (headers (data exampleState)) \<and> 1 < length (headers (data exampleState))
   \<and> (\<exists>st1. moveColumn exampleState 0 1 = Some st1
           \<and> headers (data st1) = [''Size'', ''Name'']
           \<and> moveColumn st1 1 0 = Some exampleState)"
proof -
  have a: "distinct (headers (data exampleState))" "tableInv (data exampleState)"
          "widthsInv exampleState"
          "0 < length (headers (data exampleState))" "1 < length (headers (data exampleState))"
    by (simp_all add: exampleState_def exampleTable_def tableInv_def widthsInv_def)
  have m: "moveElement (headers (data exampleState)) 0 1 = [''Size'', ''Name'']"
    by (simp add: exampleState_def exampleTable_def moveElement_rest)
  from moveColumn_then_inverse_restores[OF a] m a show ?thesis by simp
qed

section \<open>The row length invariant\<close>

lemma set_filterIndex: "set (filterIndex P xs) \<subseteq> set xs"
proof -
  have "set (filterIndex P xs) \<subseteq> snd ` set (enumerate 0 xs)"
    by (auto simp: filterIndex_def)
  also have "\<dots> = set xs" using map_snd_enumerate[of 0 xs] by (metis set_map)
  finally show ?thesis .
qed

lemma tableInv_addColumn: "tableInv (data st) \<Longrightarrow> tableInv (data (addColumn rt st))"
  by (simp add: tableInv_def addColumn_def)

lemma tableInv_insertColumnLeft:
  "tableInv (data st) \<Longrightarrow> tableInv (data (insertColumnLeft rt st c))"
  by (simp add: tableInv_def insertColumnLeft_def length_spliceInsert)

lemma tableInv_insertColumnRight:
  "tableInv (data st) \<Longrightarrow> tableInv (data (insertColumnRight rt st c))"
  by (simp add: tableInv_def insertColumnRight_def length_spliceInsert)

lemma tableInv_deleteColumn: "tableInv (data st) \<Longrightarrow> tableInv (data (deleteColumn st c))"
  by (simp add: tableInv_def deleteColumn_def length_filterIndex)

lemma tableInv_addRow: "tableInv (data st) \<Longrightarrow> tableInv (data (addRow st))"
  by (simp add: tableInv_def addRow_def)

lemma tableInv_deleteSelectedRows:
  "tableInv (data st) \<Longrightarrow> tableInv (data (deleteSelectedRows st))"
  using set_filterIndex[of "\<lambda>index. \<not> index |\<in>| selectedRows st" "rows (data st)"]
  by (auto simp: tableInv_def deleteSelectedRows_def)

lemma tableInv_sortColumn: "tableInv (data st) \<Longrightarrow> tableInv (data (sortColumn rt st c dir))"
  by (simp add: tableInv_def sortColumn_def Let_def set_jsSort)

lemma tableInv_handleDragEnd:
  assumes "tableInv (data st)" "widthsInv st"
    and "activeId \<in> set (headers (data st))" "overId \<in> set (headers (data st))"
  shows "\<exists>st'. handleDragEnd st activeId (Some overId) = Some st' \<and> tableInv (data st')"
proof (cases "activeId = overId")
  case True
  then show ?thesis using assms(1) by (simp add: handleDragEnd_def)
next
  case False
  let ?hs = "headers (data st)"
  obtain i where i: "findIndex (\<lambda>header. header = activeId) ?hs = int i"
    using findIndex_found[OF assms(3)] by (metis nonneg_int_cases)
  obtain j where j: "findIndex (\<lambda>header. header = overId) ?hs = int j"
    using findIndex_found[OF assms(4)] by (metis nonneg_int_cases)
  have il: "i < length ?hs"
    using findIndex_upper[of "\<lambda>header. header = activeId" ?hs] i by simp
  have jl: "j < length ?hs"
    using findIndex_upper[of "\<lambda>header. header = overId" ?hs] j by simp
  have "tableInv (data (st\<lparr>columnWidths := moveElement (columnWidths st) i j,
                    data := \<lparr>headers = moveElement ?hs i j,
                             rows = map (\<lambda>row. moveElement row i j) (rows (data st))\<rparr>\<rparr>))"
    using assms(1) il jl by (simp add: tableInv_def length_moveElement)
  then show ?thesis
    using handleDragEnd_moves[OF assms(1,2) False i j] by simp
qed

lemma tableInv_handleCellChange:
  assumes "tableInv (data st)" "r < length (rows (data st))" "c < length (headers (data st))"
  shows "\<exists>st'. handleCellChange st r c v = Inr st' \<and> tableInv (data st')"
proof -
  have len: "length (rows (data st) ! r) = length (headers (data st))"
    using assms(1,2) by (simp add: tableInv_def)
  have "tableInv \<lparr>headers = headers (data st),
                  rows = (rows (data st))[r := (rows (data st) ! r)[c := v]]\<rparr>"
    using assms(1) len by (auto simp: tableInv_def dest!: set_update_subset_insert[THEN subsetD])
  then show ?thesis
    using assms(2,3) len by (simp add: handleCellChange_def nthOpt_def jsAssign_def)
qed

lemma tableInv_handleHeaderChange:
  assumes "tableInv (data st)" "c < length (headers (data st))"
  shows "\<exists>st'. handleHeaderChange st c v = Inr st' \<and> tableInv (data st')"
  using assms by (simp add: handleHeaderChange_def jsAssign_def tableInv_def)

lemma mapRows_Inr:
  "mapRows f xs = Inr ys \<Longrightarrow> \<forall>y \<in> set ys. \<exists>x \<in> set xs. f x = Inr y"
proof (induction xs arbitrary: ys)
  case Nil
  then show ?case by simp
next
  case (Cons x xs)
  from Cons.prems obtain y ys' where y: "f x = Inr y" and r: "mapRows f xs = Inr ys'"
    and ys: "ys = y # ys'"
    by (auto split: sum.splits)
  show ?case unfolding ys using y Cons.IH[OF r] by auto
qed

lemma tableInv_handleApplyScoreToData:
  assumes "tableInv d"
  shows "tableInv (case handleApplyScoreToData rt sc d of
                     Inl e \<Rightarrow> d | Inr None \<Rightarrow> d | Inr (Some d') \<Rightarrow> d')"
proof (cases "handleApplyScoreToData rt sc d")
  case (Inl e)
  then show ?thesis using assms by simp
next
  case (Inr r)
  show ?thesis
  proof (cases r)
    case None
    then show ?thesis using Inr assms by simp
  next
    case (Some d')
    define newHeaders where
      "newHeaders = (if indexOf (headers d) ''Lead Score'' = -1 then headers d @ [''Lead Score'']
                     else headers d)"
    define scoreColumnIndex where
      "scoreColumnIndex = (if indexOf (headers d) ''Lead Score'' = -1 then length newHeaders - 1
                           else nat (indexOf (headers d) ''Lead Score''))"
    define f where
      "f = (\<lambda>row. case calculateRowScore rt sc d row of
                    Inl e \<Rightarrow> Inl e
                  | Inr score \<Rightarrow>
                      Inr ((row @ replicate (length newHeaders - length row) '''')
                             [scoreColumnIndex := jsnumToString rt score]))"
    have valid: "isValidWeight sc"
      using Inr Some by (auto simp: handleApplyScoreToData_def split: if_splits)
    have "handleApplyScoreToData rt sc d =
               (if \<not> isValidWeight sc then Inr None
                else case mapRows f (rows d) of
                       Inl e \<Rightarrow> Inl e
                     | Inr newRows \<Rightarrow> Inr (Some \<lparr>headers = newHeaders, rows = newRows\<rparr>))"
      unfolding handleApplyScoreToData_def Let_def f_def scoreColumnIndex_def newHeaders_def ..
    then have h: "handleApplyScoreToData rt sc d =
               (case mapRows f (rows d) of
                  Inl e \<Rightarrow> Inl e
                | Inr newRows \<Rightarrow> Inr (Some \<lparr>headers = newHeaders, rows = newRows\<rparr>))"
      using valid by (simp only: not_True_eq_False if_False)
    from Inr Some h obtain newRows where m: "mapRows f (rows d) = Inr newRows"
      and d': "d' = \<lparr>headers = newHeaders, rows = newRows\<rparr>"
      by (auto split: sum.splits)
    have len: "length (headers d) \<le> length newHeaders" by (simp add: newHeaders_def)
    have "length y = length newHeaders" if "y \<in> set newRows" for y
    proof -
      from mapRows_Inr[OF m] that obtain row where row: "row \<in> set (rows d)" and fr: "f row = Inr y"
        by blast
      have rl: "length row = length (headers d)" using assms row by (simp add: tableInv_def)
      from fr obtain score where
        "y = (row @ replicate (length newHeaders - length row) '''')[scoreColumnIndex := jsnumToString rt score]"
        by (auto simp: f_def split: sum.splits)
      then show ?thesis using rl len by simp
    qed
    then have "tableInv d'" by (simp add: tableInv_def d')
    then show ?thesis using Inr Some by simp
  qed
qed

text \<open>
  Claim C5. In a table whose rows are all as long as the header row (with widths to
  match), every structural operation yields a table of that kind again: adding a column,
  inserting one to the left or to the right, deleting a column, adding a row, deleting the
  selected rows, dragging a header onto another header, sorting, editing a cell or a
  header at valid indices, and applying the score to the data (the table is the new one
  when the handler passes one on, and the old one when it returns early or throws).
\<close>

theorem structural_operations_keep_row_length:
  assumes "tableInv (data st)" "widthsInv st"
  shows "tableInv (data (addColumn rt st))
       \<and> tableInv (data (insertColumnLeft rt st c))
       \<and> tableInv (data (insertColumnRight rt st c))
       \<and> tableInv (data (deleteColumn st c))
       \<and> tableInv (data (addRow st))
       \<and> tableInv (data (deleteSelectedRows st))
       \<and> (activeId \<in> set (headers (data st)) \<and> overId \<in> set (headers (data st)) \<longrightarrow>
            (\<exists>st'. handleDragEnd st activeId (Some overId) = Some st' \<and> tableInv (data st')))
       \<and> tableInv (data (sortColumn rt st c dir))
       \<and> (r < length (rows (data st)) \<and> c < length (headers (data st)) \<longrightarrow>
            (\<exists>st'. handleCellChange st r c v = Inr st' \<and> tableInv (data st')))
       \<and> (c < length (headers (data st)) \<longrightarrow>
            (\<exists>st'. handleHeaderChange st c v = Inr st' \<and> tableInv (data st')))
       \<and> tableInv (case handleApplyScoreToData rt sc (data st) of
                     Inl e \<Rightarrow> data st | Inr None \<Rightarrow> data st | Inr (Some d') \<Rightarrow> d')"
  using assms(1)
        tableInv_addColumn[of st rt] tableInv_insertColumnLeft[of st rt c]
        tableInv_insertColumnRight[of st rt c] tableInv_deleteColumn[of st c]
        tableInv_addRow[of st] tableInv_deleteSelectedRows[of st]
        tableInv_handleDragEnd[OF assms, of activeId overId]
        tableInv_sortColumn[of st rt c dir]
        tableInv_handleCellChange[of st r c v]
        tableInv_handleHeaderChange[of st c v]
        tableInv_handleApplyScoreToData[of "data st" rt sc]
  by blast

theorem structural_operations_keep_row_length_witness:
  "tableInv (data exampleState) \<and> widthsInv exampleState
   \<and> ''Size'' \<in> set (headers (data exampleState)) \<and> ''Name'' \<in> set (headers (data exampleState))
   \<and> 1 < length (rows (data exampleState)) \<and> 1 < length (headers (data exampleState))
   \<and> data (insertColumnRight refRuntime exampleState 1)
        = \<lparr>headers = [''Name'', ''Size'', ''Column 3''],
           rows = [[''Acme'', ''Large'', ''''], [''Beta'', ''Small'', '''']]\<rparr>
   \<and> tableInv (data (insertColumnRight refRuntime exampleState 1))
   \<and> (\<exists>st'. handleDragEnd exampleState ''Size'' (Some ''Name'') = Some st' \<and> tableInv (data st'))
   \<and> (\<exists>st'. handleCellChange exampleState 1 1 ''Tiny'' = Inr st' \<and> tableInv (data st'))
   \<and> (\<exists>st'. handleHeaderChange exampleState 1 ''Extent'' = Inr st' \<and> tableInv (data st'))"
proof -
  have a: "tableInv (data exampleState)" "widthsInv exampleState"
    by (simp_all add: exampleState_def exampleTable_def tableInv_def widthsInv_def)
  have b: "''Size'' \<in> set (headers (data exampleState))" "''Name'' \<in> set (headers (data exampleState))"
          "1 < length (rows (data exampleState))" "1 < length (headers (data exampleState))"
    by (simp_all add: exampleState_def exampleTable_def)
  have three: "jsAdd (of_nat 2) 1 = 3"
    using rd_of_nat[of 3] by (simp add: jsAdd_def)
  have str: "refNumberToString 3 = ''3''"
    by code_simp
  have e: "data (insertColumnRight refRuntime exampleState 1)
        = \<lparr>headers = [''Name'', ''Size'', ''Column 3''],
           rows = [[''Acme'', ''Large'', ''''], [''Beta'', ''Small'', '''']]\<rparr>"
    using three str
    by (simp add: insertColumnRight_def exampleState_def exampleTable_def spliceInsert_def
                  newColumnName_def refRuntime_def)
  note t = structural_operations_keep_row_length
             [OF a, of refRuntime 1 "''Size''" "''Name''" Asc 1 "''Tiny''" exampleScoring]
  note t' = structural_operations_keep_row_length
             [OF a, of refRuntime 1 "''Size''" "''Name''" Asc 1 "''Extent''" exampleScoring]
  from t b have 1: "tableInv (data (insertColumnRight refRuntime exampleState 1))"
    and 2: "\<exists>st'. handleDragEnd exampleState ''Size'' (Some ''Name'') = Some st' \<and> tableInv (data st')"
    and 3: "\<exists>st'. handleCellChange exampleState 1 1 ''Tiny'' = Inr st' \<and> tableInv (data st')"
    by blast+
  from t' b have 4: "\<exists>st'. handleHeaderChange exampleState 1 ''Extent'' = Inr st' \<and> tableInv (data st')"
    by blast
  from a b e 1 2 3 4 show ?thesis by blast
qed

section \<open>The row score\<close>

lemma pow_bound:
  fixes u :: rat
  assumes "0 \<le> u" "2 * of_nat n * u \<le> 1"
  shows "(1 + u) ^ n \<le> 1 + 2 * of_nat n * u"
  using assms(2)
proof (induction n)
  case 0
  then show ?case by simp
next
  case (Suc n)
  have s: "2 * of_nat n * u \<le> 1" using Suc.prems assms(1) by (simp add: algebra_simps)
  have "(1 + u) ^ Suc n = (1 + u) ^ n * (1 + u)" by simp
  also have "\<dots> \<le> (1 + 2 * of_nat n * u) * (1 + u)"
    using Suc.IH[OF s] assms(1) by (intro mult_right_mono) simp_all
  also have "\<dots> = 1 + 2 * of_nat n * u + u + (2 * of_nat n * u) * u" by (simp add: algebra_simps)
  also have "\<dots> \<le> 1 + 2 * of_nat n * u + u + 1 * u"
    using s assms(1) by (intro add_left_mono mult_right_mono) simp_all
  also have "\<dots> = 1 + 2 * of_nat (Suc n) * u" by (simp add: algebra_simps)
  finally show ?case .
qed

lemma ulp1_ge: "1 \<le> ulp1" by (simp add: ulp1_def)

lemma rd_upper': "0 \<le> x \<Longrightarrow> rd x \<le> x * ulp1"
  unfolding ulp1_def by (rule rd_upper)

text \<open>
  When neither the column name nor a cell of the row is a key of \<open>objectPrototypeKeys\<close>,
  no lookup of \<open>scoreStep\<close> reaches the prototype: on a finite total the step is the
  arithmetic on the configured weights.
\<close>

lemma nthOpt_in_set: "nthOpt row i = Some v \<Longrightarrow> v \<in> set row"
  by (auto simp: nthOpt_def split: if_splits)

lemma columnWeight_plain:
  assumes "c \<notin> set objectPrototypeKeys"
  shows "toNumber rt (orElse (weightValue (objGet (weights st) c)) (JSNumber (Fin 0)))
           = Fin (columnWeightOf st c)"
  using assms
  by (auto simp: objGet_def weightValue_def orElse_def columnWeightOf_def split: option.splits)

lemma valueWeight_plain:
  assumes "c \<notin> set objectPrototypeKeys" "v \<notin> set objectPrototypeKeys"
  shows "\<exists>x. valueWeightRead rt st c v = Inr x
             \<and> toNumber rt (orElse x (JSNumber (Fin 50)))
                 = Fin (case objGet (subcategoryWeights st) c of
                          Own m \<Rightarrow> (case objGet m v of
                                      Own w \<Rightarrow> if w = 0 then 50 else w
                                    | Absent \<Rightarrow> 50 | Inherited \<Rightarrow> 50)
                        | Absent \<Rightarrow> 50 | Inherited \<Rightarrow> 50)"
proof (cases "map_of (subcategoryWeights st) c")
  case None
  then show ?thesis using assms(1)
    by (simp add: valueWeightRead_def objGet_def orElse_def)
next
  case (Some m)
  then have g: "objGet (subcategoryWeights st) c = Own m" by (simp add: objGet_def)
  show ?thesis
  proof (cases "map_of m v")
    case None
    then have "objGet m v = Absent" using assms(2) by (simp add: objGet_def)
    then show ?thesis using g by (simp add: valueWeightRead_def weightValue_def orElse_def)
  next
    case (Some w)
    then have "objGet m v = Own w" by (simp add: objGet_def)
    then show ?thesis using g by (simp add: valueWeightRead_def weightValue_def orElse_def)
  qed
qed

lemma scoreStep_plain:
  assumes K: "c \<notin> set objectPrototypeKeys" and R: "set row \<inter> set objectPrototypeKeys = {}"
  shows "scoreStep rt st d row (Inr (Fin t)) c =
     (if indexOf (headers d) c = -1 then Inr (Fin t)
      else (case nthOpt row (nat (indexOf (headers d) c)) of
              None \<Rightarrow> Inr (Fin t)
            | Some cellValue \<Rightarrow>
                if cellValue = [] \<or> jsTrim cellValue = [] then Inr (Fin t)
                else Inr (Fin (jsAdd t (jsMul (jsDiv (columnWeightOf st c) 100)
                       (case objGet (subcategoryWeights st) c of
                          Own m \<Rightarrow> (case objGet m cellValue of
                                      Own w \<Rightarrow> if w = 0 then 50 else w
                                    | Absent \<Rightarrow> 50 | Inherited \<Rightarrow> 50)
                        | Absent \<Rightarrow> 50 | Inherited \<Rightarrow> 50))))))"
proof (cases "indexOf (headers d) c = -1")
  case True
  then show ?thesis by (simp add: scoreStep_def)
next
  case F: False
  show ?thesis
  proof (cases "nthOpt row (nat (indexOf (headers d) c))")
    case None
    then show ?thesis using F by (simp add: scoreStep_def)
  next
    case (Some v)
    show ?thesis
    proof (cases "v = [] \<or> jsTrim v = []")
      case True
      then show ?thesis using F Some by (simp add: scoreStep_def)
    next
      case False
      have "v \<notin> set objectPrototypeKeys" using nthOpt_in_set[OF Some] R by blast
      from valueWeight_plain[OF K this, of rt st] obtain x where
        x: "valueWeightRead rt st c v = Inr x"
        and n: "toNumber rt (orElse x (JSNumber (Fin 50)))
                  = Fin (case objGet (subcategoryWeights st) c of
                           Own m \<Rightarrow> (case objGet m v of
                                       Own w \<Rightarrow> if w = 0 then 50 else w
                                     | Absent \<Rightarrow> 50 | Inherited \<Rightarrow> 50)
                         | Absent \<Rightarrow> 50 | Inherited \<Rightarrow> 50)"
        by blast
      show ?thesis using F Some False
        by (simp add: scoreStep_def Let_def x n columnWeight_plain[OF K])
    qed
  qed
qed

lemma scoreStep_cases:
  assumes V: "\<forall>c m v w. objGet (subcategoryWeights st) c = Own m \<and> objGet m v = Own w
                \<longrightarrow> 0 \<le> w \<and> w \<le> 100"
    and K: "c \<notin> set objectPrototypeKeys" and R: "set row \<inter> set objectPrototypeKeys = {}"
  shows "scoreStep rt st d row (Inr (Fin t)) c = Inr (Fin t)
         \<or> (\<exists>sw. 0 < sw \<and> sw \<le> 100
               \<and> scoreStep rt st d row (Inr (Fin t)) c
                   = Inr (Fin (jsAdd t (jsMul (jsDiv (columnWeightOf st c) 100) sw))))"
proof -
  define swOf where "swOf v = (case objGet (subcategoryWeights st) c of
                   Own m \<Rightarrow> (case objGet m v of
                               Own w \<Rightarrow> if w = 0 then 50 else w
                             | Absent \<Rightarrow> 50 | Inherited \<Rightarrow> 50)
                 | Absent \<Rightarrow> (50::rat) | Inherited \<Rightarrow> 50)" for v
  have sw: "0 < swOf v \<and> swOf v \<le> 100" for v
    unfolding swOf_def using V by (fastforce split: property.splits)
  note eq = scoreStep_plain[OF K R, of rt st d t, folded swOf_def]
  show ?thesis
  proof (cases "scoreStep rt st d row (Inr (Fin t)) c = Inr (Fin t)")
    case True
    then show ?thesis by simp
  next
    case False
    then obtain cellValue where
      "scoreStep rt st d row (Inr (Fin t)) c
         = Inr (Fin (jsAdd t (jsMul (jsDiv (columnWeightOf st c) 100) (swOf cellValue))))"
      unfolding eq by (auto split: option.splits if_splits)
    then show ?thesis using sw[of cellValue] by blast
  qed
qed

lemma term_bound_rat:
  assumes "0 \<le> cw" "cw \<le> 100" "0 < sw" "sw \<le> 100"
  shows "0 \<le> jsMul (jsDiv cw 100) sw"
    and "jsMul (jsDiv cw 100) sw \<le> cw * ulp1 ^ 2"
proof -
  let ?a = "jsDiv cw 100"
  have a0: "0 \<le> ?a" unfolding jsDiv_def using assms(1) by (intro rd_nonneg) simp
  have a1: "?a \<le> cw / 100 * ulp1" unfolding jsDiv_def using assms(1) by (intro rd_upper') simp
  have p0: "0 \<le> ?a * sw" using a0 assms(3) by simp
  show "0 \<le> jsMul ?a sw" unfolding jsMul_def using p0 by (rule rd_nonneg)
  have "jsMul ?a sw \<le> ?a * sw * ulp1" unfolding jsMul_def using p0 by (rule rd_upper')
  also have "\<dots> \<le> (cw / 100 * ulp1) * sw * ulp1"
    using a1 assms(3) ulp1_ge by (intro mult_right_mono) simp_all
  also have "\<dots> \<le> (cw / 100 * ulp1) * 100 * ulp1"
    using assms(1,4) ulp1_ge by (intro mult_right_mono mult_left_mono) simp_all
  also have "\<dots> = cw * ulp1 ^ 2" by (simp add: power2_eq_square)
  finally show "jsMul ?a sw \<le> cw * ulp1 ^ 2" .
qed

lemma scoreStep_bound_rat:
  assumes V: "\<forall>c m v w. objGet (subcategoryWeights st) c = Own m \<and> objGet m v = Own w
                \<longrightarrow> 0 \<le> w \<and> w \<le> 100"
    and K: "c \<notin> set objectPrototypeKeys" and R: "set row \<inter> set objectPrototypeKeys = {}"
    and cw: "0 \<le> columnWeightOf st c" "columnWeightOf st c \<le> 100"
    and t: "0 \<le> t" "t \<le> S * ulp1 ^ (j + 2)" and S: "0 \<le> S"
  shows "\<exists>t'. scoreStep rt st d row (Inr (Fin t)) c = Inr (Fin t')
             \<and> 0 \<le> t' \<and> t' \<le> (S + columnWeightOf st c) * ulp1 ^ (Suc j + 2)"
proof -
  let ?cw = "columnWeightOf st c"
  have p2: "(0::rat) \<le> ulp1 ^ (j + 2)" using ulp1_ge by simp
  have mono: "S * ulp1 ^ (j + 2) \<le> (S + ?cw) * ulp1 ^ (Suc j + 2)"
  proof -
    have "ulp1 ^ (j + 2) \<le> ulp1 ^ (Suc j + 2)"
      using ulp1_ge by (intro power_increasing) simp_all
    moreover have "S \<le> S + ?cw" using cw(1) by simp
    ultimately show ?thesis using S p2 by (intro mult_mono) simp_all
  qed
  from scoreStep_cases[OF V K R, of rt d t]
  consider (skip) "scoreStep rt st d row (Inr (Fin t)) c = Inr (Fin t)"
    | (add) sw where "0 < sw" "sw \<le> 100"
        "scoreStep rt st d row (Inr (Fin t)) c = Inr (Fin (jsAdd t (jsMul (jsDiv ?cw 100) sw)))"
    by blast
  then show ?thesis
  proof cases
    case skip
    have "t \<le> (S + ?cw) * ulp1 ^ (Suc j + 2)" using t(2) mono by (rule order_trans)
    then show ?thesis using skip t(1) by blast
  next
    case add
    let ?p = "jsMul (jsDiv ?cw 100) sw"
    note tb = term_bound_rat[OF cw add(1,2)]
    have s: "jsAdd t ?p = rd (t + ?p)" by (simp add: jsAdd_def)
    have nn: "0 \<le> t + ?p" using t(1) tb(1) by simp
    have "rd (t + ?p) \<le> (t + ?p) * ulp1" using nn by (rule rd_upper')
    also have "\<dots> \<le> (S * ulp1 ^ (j + 2) + ?cw * ulp1 ^ 2) * ulp1"
      using t(2) tb(2) ulp1_ge by (intro mult_right_mono add_mono) simp_all
    also have "\<dots> \<le> (S * ulp1 ^ (j + 2) + ?cw * ulp1 ^ (j + 2)) * ulp1"
    proof -
      have "ulp1 ^ 2 \<le> ulp1 ^ (j + 2)" using ulp1_ge by (intro power_increasing) simp_all
      then have "?cw * ulp1 ^ 2 \<le> ?cw * ulp1 ^ (j + 2)"
        using cw(1) by (intro mult_left_mono) simp_all
      then show ?thesis using ulp1_ge by (intro mult_right_mono add_left_mono) simp_all
    qed
    also have "\<dots> = (S + ?cw) * ulp1 ^ (Suc j + 2)"
      by (simp add: algebra_simps)
    finally have up: "rd (t + ?p) \<le> (S + ?cw) * ulp1 ^ (Suc j + 2)" .
    have "0 \<le> rd (t + ?p)" using nn by (rule rd_nonneg)
    then show ?thesis using up add(3) unfolding s by blast
  qed
qed

lemma foldl_scoreStep_bound_rat:
  assumes V: "\<forall>c m v w. objGet (subcategoryWeights st) c = Own m \<and> objGet m v = Own w
                \<longrightarrow> 0 \<le> w \<and> w \<le> 100"
    and R: "set row \<inter> set objectPrototypeKeys = {}"
  shows "(\<And>c. c \<in> set cs \<Longrightarrow> c \<notin> set objectPrototypeKeys
                  \<and> 0 \<le> columnWeightOf st c \<and> columnWeightOf st c \<le> 100) \<Longrightarrow>
         0 \<le> t \<Longrightarrow> t \<le> S * ulp1 ^ (j + 2) \<Longrightarrow> 0 \<le> S \<Longrightarrow>
         \<exists>t'. foldl (scoreStep rt st d row) (Inr (Fin t)) cs = Inr (Fin t')
             \<and> 0 \<le> t'
             \<and> t' \<le> (S + sum_list (map (columnWeightOf st) cs)) * ulp1 ^ (j + length cs + 2)"
proof (induction cs arbitrary: t S j)
  case Nil
  then show ?case by simp
next
  case (Cons c cs)
  have K: "c \<notin> set objectPrototypeKeys"
    and cw: "0 \<le> columnWeightOf st c" "columnWeightOf st c \<le> 100"
    using Cons.prems(1)[of c] by simp_all
  from scoreStep_bound_rat[OF V K R cw Cons.prems(2,3,4), of rt d]
  obtain t1 where s: "scoreStep rt st d row (Inr (Fin t)) c = Inr (Fin t1)"
    and t1: "0 \<le> t1" "t1 \<le> (S + columnWeightOf st c) * ulp1 ^ (Suc j + 2)"
    by blast
  have S': "0 \<le> S + columnWeightOf st c" using Cons.prems(4) cw(1) by simp
  have "\<exists>t'. foldl (scoreStep rt st d row) (Inr (Fin t1)) cs = Inr (Fin t')
          \<and> 0 \<le> t'
          \<and> t' \<le> (S + columnWeightOf st c + sum_list (map (columnWeightOf st) cs))
                 * ulp1 ^ (Suc j + length cs + 2)"
    using t1 S' Cons.prems(1) by (intro Cons.IH) simp_all
  then show ?case by (simp add: s add.assoc)
qed

text \<open>
  The score lies between 0 and 100 when no included column and no cell of the row is
  named like a member of \<^verbatim>\<open>Object.prototype\<close>: when moreover the weight of every
  included column lies between 0 and 100, the weights of the included columns sum to 100
  and every assigned per-value weight lies between 0 and 100, \<open>calculateRowScore\<close>
  returns a finite number between 0 and 100. The computation is the one of the program, in
  binary64 arithmetic; the number of included columns is below \<open>2^32\<close>, the limit of an
  array.
\<close>

theorem calculateRowScore_within_0_100:
  assumes W: "\<forall>c \<in> set (includedColumns st). 0 \<le> columnWeightOf st c \<and> columnWeightOf st c \<le> 100"
    and S: "sum_list (map (columnWeightOf st) (includedColumns st)) = 100"
    and V: "\<forall>c m v w. objGet (subcategoryWeights st) c = Own m \<and> objGet m v = Own w
                \<longrightarrow> 0 \<le> w \<and> w \<le> 100"
    and L: "length (includedColumns st) < 2 ^ 32"
    and K: "set (includedColumns st) \<inter> set objectPrototypeKeys = {}"
    and R: "set row \<inter> set objectPrototypeKeys = {}"
  shows "\<exists>s. calculateRowScore rt st d row = Inr (Fin s) \<and> 0 \<le> s \<and> s \<le> 100"
proof -
  let ?cs = "includedColumns st"
  define n where "n = length ?cs"
  have "\<exists>t'. foldl (scoreStep rt st d row) (Inr (Fin 0)) ?cs = Inr (Fin t')
          \<and> 0 \<le> t'
          \<and> t' \<le> (0 + sum_list (map (columnWeightOf st) ?cs)) * ulp1 ^ (0 + length ?cs + 2)"
    using W K by (intro foldl_scoreStep_bound_rat[OF V R]) auto
  then obtain total where tot: "foldl (scoreStep rt st d row) (Inr (Fin 0)) ?cs = Inr (Fin total)"
    and t0: "0 \<le> total" and t1: "total \<le> 100 * ulp1 ^ (n + 2)"
    unfolding S n_def by auto
  define y where "y = jsMul total 100"
  have y0: "0 \<le> y" unfolding y_def jsMul_def using t0 by (intro rd_nonneg) simp
  have nb: "(of_nat (n + 3) :: rat) \<le> 4294967298"
  proof -
    have "n + 3 \<le> 4294967298" using L unfolding n_def by simp
    then have "(of_nat (n + 3) :: rat) \<le> of_nat 4294967298" by (simp only: of_nat_le_iff)
    then show ?thesis by simp
  qed
  have "y \<le> total * 100 * ulp1" unfolding y_def jsMul_def using t0 by (intro rd_upper') simp
  also have "\<dots> \<le> (100 * ulp1 ^ (n + 2)) * 100 * ulp1"
    using t1 ulp1_ge by (intro mult_right_mono) simp_all
  also have "\<dots> = 10000 * ulp1 ^ (n + 3)" by (simp add: eval_nat_numeral)
  also have "\<dots> \<le> 10000 * (1 + 2 * of_nat (n + 3) * (1 / 2 ^ 53))"
    unfolding ulp1_def using nb by (intro mult_left_mono pow_bound) simp_all
  also have "\<dots> \<le> 10000 * (1 + 2 * 4294967298 * (1 / 2 ^ 53))"
    using nb by (intro mult_left_mono add_left_mono mult_right_mono) simp_all
  also have "\<dots> < 10000 + 1 / 2" by simp
  finally have y1: "y < 10000 + 1 / 2" .
  define m where "m = \<lfloor>y + 1 / 2\<rfloor>"
  have m0: "0 \<le> m" unfolding m_def using y0 by simp
  have "y + 1 / 2 < of_int 10001" using y1 by simp
  then have "m < 10001" unfolding m_def by (simp only: floor_less_iff)
  then have m1: "m \<le> 10000" by simp
  have res: "calculateRowScore rt st d row = Inr (Fin (rd (of_int m / 100)))"
    by (simp add: calculateRowScore_def tot y_def m_def jsDiv_def jsMathRound_def)
  have q0: "(0::rat) \<le> of_int m / 100" using m0 by simp
  have "(of_int m :: rat) \<le> of_int 10000" using m1 by (simp only: of_int_le_iff)
  then have q1: "(of_int m :: rat) / 100 \<le> 100" by simp
  have "rd (of_int m / 100) \<le> rd 100" using q0 q1 by (rule rd_mono)
  also have "rd 100 = 100" using rd_of_nat[of 100] by simp
  finally have "rd (of_int m / 100) \<le> 100" .
  moreover have "0 \<le> rd (of_int m / 100)" using q0 by (rule rd_nonneg)
  ultimately show ?thesis using res by blast
qed

theorem calculateRowScore_within_0_100_witness:
  "sum_list (map (columnWeightOf exampleScoring) (includedColumns exampleScoring)) = 100
   \<and> length (includedColumns exampleScoring) < 2 ^ 32
   \<and> set (includedColumns exampleScoring) \<inter> set objectPrototypeKeys = {}
   \<and> set [''Beta'', ''Small''] \<inter> set objectPrototypeKeys = {}
   \<and> calculateRowScore refRuntime exampleScoring exampleTable [''Beta'', ''Small''] = Inr (Fin 50)
   \<and> (\<exists>s. calculateRowScore refRuntime exampleScoring exampleTable [''Beta'', ''Small''] = Inr (Fin s)
          \<and> 0 \<le> s \<and> s \<le> 100)"
proof -
  have n: "columnWeightOf exampleScoring ''Name'' = 60"
    and s: "columnWeightOf exampleScoring ''Size'' = 40"
    by (simp_all add: columnWeightOf_def exampleScoring_def objGet_def)
  have W: "\<forall>c \<in> set (includedColumns exampleScoring).
             0 \<le> columnWeightOf exampleScoring c \<and> columnWeightOf exampleScoring c \<le> 100"
    using n s by (simp add: exampleScoring_def)
  have S: "sum_list (map (columnWeightOf exampleScoring) (includedColumns exampleScoring)) = 100"
    using n s by (simp add: exampleScoring_def)
  have V: "\<forall>c m v w. objGet (subcategoryWeights exampleScoring) c = Own m \<and> objGet m v = Own w
                \<longrightarrow> 0 \<le> w \<and> w \<le> 100"
    by (auto simp: exampleScoring_def objGet_Own_iff split: if_splits)
  have L: "length (includedColumns exampleScoring) < 2 ^ 32"
    by (simp add: exampleScoring_def)
  have K: "set (includedColumns exampleScoring) \<inter> set objectPrototypeKeys = {}"
    by (simp add: exampleScoring_def objectPrototypeKeys_def)
  have R: "set [''Beta'', ''Small''] \<inter> set objectPrototypeKeys = {}"
    by (simp add: objectPrototypeKeys_def)
  have e: "calculateRowScore refRuntime exampleScoring exampleTable [''Beta'', ''Small''] = Inr (Fin 50)"
    by code_simp
  from calculateRowScore_within_0_100[OF W S V L K R, of refRuntime exampleTable] S L K R e
  show ?thesis by blast
qed

text \<open>
  Claim C10 against the code. A cell whose value is named like a member of
  \<^verbatim>\<open>Object.prototype\<close> makes the score \<^verbatim>\<open>NaN\<close>. In the example configuration, which
  is valid (weights 60 and 40, per-value weights 100 and 0), the column \<^verbatim>\<open>Size\<close> has
  per-value weights, so for a row whose \<^verbatim>\<open>Size\<close> is \<^verbatim>\<open>constructor\<close> the lookup
  \<^verbatim>\<open>subcategoryWeights[columnName]?.[cellValue]\<close> finds the inherited function instead of
  a weight; \<^verbatim>\<open>calculateRowScore\<close> returns \<^verbatim>\<open>NaN\<close>, for every runtime, and
  \<^verbatim>\<open>handleApplyScoreToData\<close> writes \<^verbatim>\<open>NaN\<close> into the table.
\<close>

theorem calculateRowScore_inherited_member_gives_NaN:
  "objEntries (weights exampleScoring) = [(''Name'', 60), (''Size'', 40)]
   \<and> totalWeight exampleScoring = 100
   \<and> isValidWeight exampleScoring = True
   \<and> objGet (subcategoryWeights exampleScoring) ''Size'' = Own [(''Large'', 100), (''Small'', 0)]
   \<and> calculateRowScore rt exampleScoring constructorTable [''Acme'', ''constructor''] = Inr NaN
   \<and> handleApplyScoreToData rt exampleScoring constructorTable
       = Inr (Some \<lparr>headers = [''Name'', ''Size'', ''Lead Score''],
                      rows = [[''Acme'', ''constructor'', ''NaN'']]\<rparr>)"
  by code_simp

lemma ulp0_bounds: "0 \<le> ulp0" "ulp0 \<le> 1"
  by (simp_all add: ulp0_def)

lemma rd_lower:
  assumes "0 \<le> x"
  shows "x * ulp0 \<le> rd x"
proof (cases "x = 0")
  case True
  then show ?thesis by (simp add: rd_zero)
next
  case False
  then have xp: "0 < x" using assms by simp
  let ?e = "ilog2 x - 52"
  let ?y = "x / 2 powi ?e"
  have "?y - ?y / 2 ^ 53 \<le> ?y - 1/2"
    using scaled_bounds(1)[OF xp] by simp
  also have "\<dots> \<le> of_int (roundHalfEven ?y)"
    using roundHalfEven_error[of ?y] by linarith
  finally have "?y - ?y / 2 ^ 53 \<le> of_int (roundHalfEven ?y)" .
  then have "(?y - ?y / 2 ^ 53) * 2 powi ?e \<le> of_int (roundHalfEven ?y) * 2 powi ?e"
    by (rule mult_right_mono) simp
  moreover have "(?y - ?y / 2 ^ 53) * 2 powi ?e = x * (1 - 1 / 2 ^ 53)"
    by (simp add: field_simps)
  ultimately show ?thesis unfolding rd_pos_eq[OF xp] ulp0_def by simp
qed

lemma pow_lower:
  fixes u :: rat
  assumes "0 \<le> u" "u \<le> 1"
  shows "1 - of_nat n * u \<le> (1 - u) ^ n"
proof (induction n)
  case 0
  then show ?case by simp
next
  case (Suc n)
  have "1 - of_nat (Suc n) * u \<le> (1 - of_nat n * u) * (1 - u)"
  proof -
    have "(1 - of_nat n * u) * (1 - u) = 1 - of_nat (Suc n) * u + of_nat n * (u * u)"
      by (simp add: algebra_simps)
    moreover have "0 \<le> of_nat n * (u * u)" using assms(1) by simp
    ultimately show ?thesis by linarith
  qed
  also have "\<dots> \<le> (1 - u) ^ n * (1 - u)"
    using Suc.IH assms(2) by (intro mult_right_mono) simp_all
  also have "\<dots> = (1 - u) ^ Suc n" by simp
  finally show ?case .
qed

lemma scoreStep_spec_cases:
  assumes V: "\<forall>c m v w. objGet (subcategoryWeights st) c = Own m \<and> objGet m v = Own w
                \<longrightarrow> w \<in> \<nat> \<and> 0 < w \<and> w \<le> 100"
    and K: "c \<notin> set objectPrototypeKeys" and R: "set row \<inter> set objectPrototypeKeys = {}"
  shows "(scoreStep rt st d row (Inr (Fin t)) c = Inr (Fin t) \<and> specContribution st d row c = 0)
         \<or> (\<exists>sw. sw \<in> \<nat> \<and> 0 < sw \<and> sw \<le> 100
               \<and> scoreStep rt st d row (Inr (Fin t)) c
                   = Inr (Fin (jsAdd t (jsMul (jsDiv (columnWeightOf st c) 100) sw)))
               \<and> specContribution st d row c = columnWeightOf st c / 100 * sw)"
proof -
  define swOf where "swOf v = (case objGet (subcategoryWeights st) c of
                   Own m \<Rightarrow> (case objGet m v of
                               Own w \<Rightarrow> if w = 0 then 50 else w
                             | Absent \<Rightarrow> 50 | Inherited \<Rightarrow> 50)
                 | Absent \<Rightarrow> (50::rat) | Inherited \<Rightarrow> 50)" for v
  have fifty: "(50::rat) \<in> \<nat>"
    using of_nat_in_Nats[of 50, where 'a = rat] by simp
  have sw: "swOf v \<in> \<nat> \<and> 0 < swOf v \<and> swOf v \<le> 100" for v
    unfolding swOf_def using V fifty by (fastforce split: property.splits)
  have sp: "specValueWeight st c v = swOf v" for v
    unfolding swOf_def specValueWeight_def using V by (fastforce split: property.splits)
  have ix: "indexOf (headers d) c < 0 \<longleftrightarrow> indexOf (headers d) c = -1"
  proof -
    have "findIndex P xs < 0 \<longleftrightarrow> findIndex P xs = -1" for P and xs :: "string list"
      by (induction xs) (auto simp: Let_def)
    then show ?thesis by (simp add: indexOf_def)
  qed
  note eq = scoreStep_plain[OF K R, of rt st d t, folded swOf_def]
  have eq': "specContribution st d row c =
     (if indexOf (headers d) c = -1 then 0
         else (case nthOpt row (nat (indexOf (headers d) c)) of
                 None \<Rightarrow> 0
               | Some cellValue \<Rightarrow>
                   if cellValue = [] \<or> jsTrim cellValue = [] then 0
                   else columnWeightOf st c / 100 * swOf cellValue))"
    unfolding specContribution_def Let_def ix sp nonBlank_def
    by (simp split: option.splits)
  show ?thesis
  proof (cases "indexOf (headers d) c = -1")
    case True
    then show ?thesis unfolding eq eq' by simp
  next
    case F: False
    show ?thesis
    proof (cases "nthOpt row (nat (indexOf (headers d) c))")
      case None
      then show ?thesis unfolding eq eq' using F by simp
    next
      case (Some v)
      show ?thesis
      proof (cases "v = [] \<or> jsTrim v = []")
        case True
        then show ?thesis unfolding eq eq' using F Some by simp
      next
        case False
        then have "scoreStep rt st d row (Inr (Fin t)) c
                     = Inr (Fin (jsAdd t (jsMul (jsDiv (columnWeightOf st c) 100) (swOf v))))"
          and "specContribution st d row c = columnWeightOf st c / 100 * swOf v"
          unfolding eq eq' using F Some by simp_all
        then show ?thesis using sw[of v] by blast
      qed
    qed
  qed
qed

lemma term_bounds_two_sided:
  assumes "0 \<le> cw" "0 < sw"
  shows "cw / 100 * sw * ulp0 ^ 2 \<le> jsMul (jsDiv cw 100) sw"
    and "jsMul (jsDiv cw 100) sw \<le> cw / 100 * sw * ulp1 ^ 2"
proof -
  let ?a = "jsDiv cw 100"
  have c0: "0 \<le> cw / 100" using assms(1) by simp
  have a0: "0 \<le> ?a" unfolding jsDiv_def using c0 by (rule rd_nonneg)
  have a1: "?a \<le> cw / 100 * ulp1" unfolding jsDiv_def using c0 by (rule rd_upper')
  have a2: "cw / 100 * ulp0 \<le> ?a" unfolding jsDiv_def using c0 by (rule rd_lower)
  have p0: "0 \<le> ?a * sw" using a0 assms(2) by simp
  have "jsMul ?a sw \<le> ?a * sw * ulp1" unfolding jsMul_def using p0 by (rule rd_upper')
  also have "\<dots> \<le> (cw / 100 * ulp1) * sw * ulp1"
    using a1 assms(2) ulp1_ge by (intro mult_right_mono) simp_all
  also have "\<dots> = cw / 100 * sw * ulp1 ^ 2" by (simp add: power2_eq_square)
  finally show "jsMul ?a sw \<le> cw / 100 * sw * ulp1 ^ 2" .
  have "cw / 100 * sw * ulp0 ^ 2 = (cw / 100 * ulp0) * sw * ulp0" by (simp add: power2_eq_square)
  also have "\<dots> \<le> ?a * sw * ulp0"
    using a2 assms(2) ulp0_bounds(1) by (intro mult_right_mono) simp_all
  also have "\<dots> \<le> jsMul ?a sw" unfolding jsMul_def using p0 by (rule rd_lower)
  finally show "cw / 100 * sw * ulp0 ^ 2 \<le> jsMul ?a sw" .
qed

lemma scoreStep_two_sided:
  assumes V: "\<forall>c m v w. objGet (subcategoryWeights st) c = Own m \<and> objGet m v = Own w
                \<longrightarrow> w \<in> \<nat> \<and> 0 < w \<and> w \<le> 100"
    and K: "c \<notin> set objectPrototypeKeys" and R: "set row \<inter> set objectPrototypeKeys = {}"
    and cw: "0 \<le> columnWeightOf st c"
    and lo: "E * ulp0 ^ (j + 2) \<le> t" and hi: "t \<le> E * ulp1 ^ (j + 2)" and E: "0 \<le> E"
  shows "\<exists>t'. scoreStep rt st d row (Inr (Fin t)) c = Inr (Fin t')
             \<and> (E + specContribution st d row c) * ulp0 ^ (Suc j + 2) \<le> t'
             \<and> t' \<le> (E + specContribution st d row c) * ulp1 ^ (Suc j + 2)"
proof -
  let ?cw = "columnWeightOf st c"
  have u0: "ulp0 ^ (Suc j + 2) \<le> ulp0 ^ (j + 2)"
    using ulp0_bounds by (intro power_decreasing) simp_all
  have u1: "ulp1 ^ (j + 2) \<le> ulp1 ^ (Suc j + 2)"
    using ulp1_ge by (intro power_increasing) simp_all
  from scoreStep_spec_cases[OF V K R, of rt d t]
  consider (skip) "scoreStep rt st d row (Inr (Fin t)) c = Inr (Fin t)"
                  "specContribution st d row c = 0"
    | (add) sw where "0 < sw"
        "scoreStep rt st d row (Inr (Fin t)) c = Inr (Fin (jsAdd t (jsMul (jsDiv ?cw 100) sw)))"
        "specContribution st d row c = ?cw / 100 * sw"
    by blast
  then show ?thesis
  proof cases
    case skip
    have "E * ulp0 ^ (Suc j + 2) \<le> E * ulp0 ^ (j + 2)"
      using u0 E by (rule mult_left_mono)
    moreover have "E * ulp1 ^ (j + 2) \<le> E * ulp1 ^ (Suc j + 2)"
      using u1 E by (rule mult_left_mono)
    ultimately have "E * ulp0 ^ (Suc j + 2) \<le> t \<and> t \<le> E * ulp1 ^ (Suc j + 2)"
      using lo hi by linarith
    then show ?thesis using skip by simp
  next
    case add
    let ?p = "jsMul (jsDiv ?cw 100) sw"
    let ?e = "?cw / 100 * sw"
    note tb = term_bounds_two_sided[OF cw add(1)]
    have e0: "0 \<le> ?e" using cw add(1) by simp
    have t0: "0 \<le> t"
    proof -
      have "0 \<le> E * ulp0 ^ (j + 2)" using E ulp0_bounds(1) by simp
      then show ?thesis using lo by simp
    qed
    have p0: "0 \<le> ?p"
    proof -
      have "0 \<le> ?e * ulp0 ^ 2" using e0 ulp0_bounds(1) by simp
      then show ?thesis using tb(1) by simp
    qed
    have s: "jsAdd t ?p = rd (t + ?p)" by (simp add: jsAdd_def)
    have nn: "0 \<le> t + ?p" using t0 p0 by simp
    have "rd (t + ?p) \<le> (t + ?p) * ulp1" using nn by (rule rd_upper')
    also have "\<dots> \<le> (E * ulp1 ^ (j + 2) + ?e * ulp1 ^ 2) * ulp1"
      using hi tb(2) ulp1_ge by (intro mult_right_mono add_mono) simp_all
    also have "\<dots> \<le> (E * ulp1 ^ (j + 2) + ?e * ulp1 ^ (j + 2)) * ulp1"
    proof -
      have "ulp1 ^ 2 \<le> ulp1 ^ (j + 2)" using ulp1_ge by (intro power_increasing) simp_all
      then have "?e * ulp1 ^ 2 \<le> ?e * ulp1 ^ (j + 2)"
        using e0 by (rule mult_left_mono)
      then show ?thesis using ulp1_ge by (intro mult_right_mono add_left_mono) simp_all
    qed
    also have "\<dots> = (E + ?e) * ulp1 ^ (Suc j + 2)"
      by (simp add: algebra_simps)
    finally have up: "rd (t + ?p) \<le> (E + ?e) * ulp1 ^ (Suc j + 2)" .
    have "(E + ?e) * ulp0 ^ (Suc j + 2) = (E * ulp0 ^ (j + 2) + ?e * ulp0 ^ (j + 2)) * ulp0"
      by (simp add: algebra_simps)
    also have "\<dots> \<le> (E * ulp0 ^ (j + 2) + ?e * ulp0 ^ 2) * ulp0"
    proof -
      have "ulp0 ^ (j + 2) \<le> ulp0 ^ 2" using ulp0_bounds by (intro power_decreasing) simp_all
      then have "?e * ulp0 ^ (j + 2) \<le> ?e * ulp0 ^ 2"
        using e0 by (rule mult_left_mono)
      then show ?thesis using ulp0_bounds(1) by (intro mult_right_mono add_left_mono) simp_all
    qed
    also have "\<dots> \<le> (t + ?p) * ulp0"
      using lo tb(1) ulp0_bounds(1) by (intro mult_right_mono add_mono) simp_all
    also have "\<dots> \<le> rd (t + ?p)" using nn by (rule rd_lower)
    finally have dn: "(E + ?e) * ulp0 ^ (Suc j + 2) \<le> rd (t + ?p)" .
    show ?thesis unfolding add(2,3) s using up dn by blast
  qed
qed

lemma nats_nonneg:
  fixes x :: rat
  shows "x \<in> \<nat> \<Longrightarrow> 0 \<le> x"
  by (auto elim: Nats_cases)

lemma specContribution_bounds:
  assumes V: "\<forall>c m v w. objGet (subcategoryWeights st) c = Own m \<and> objGet m v = Own w
                \<longrightarrow> w \<in> \<nat> \<and> 0 < w \<and> w \<le> 100"
    and K: "c \<notin> set objectPrototypeKeys" and R: "set row \<inter> set objectPrototypeKeys = {}"
    and cw: "columnWeightOf st c \<in> \<nat>"
  shows "0 \<le> specContribution st d row c"
    and "specContribution st d row c \<le> columnWeightOf st c"
    and "100 * specContribution st d row c \<in> \<nat>"
proof -
  let ?cw = "columnWeightOf st c"
  have c0: "0 \<le> ?cw" using cw by (rule nats_nonneg)
  from scoreStep_spec_cases[OF V K R, of refRuntime d 0]
  consider (skip) "specContribution st d row c = 0"
    | (add) sw where "sw \<in> \<nat>" "0 < sw" "sw \<le> 100"
        "specContribution st d row c = ?cw / 100 * sw"
    by blast
  then have "0 \<le> specContribution st d row c
             \<and> specContribution st d row c \<le> ?cw
             \<and> 100 * specContribution st d row c \<in> \<nat>"
  proof cases
    case skip
    then show ?thesis using c0 by simp
  next
    case add
    have "?cw / 100 * sw \<le> ?cw / 100 * 100"
      using add(3) c0 by (intro mult_left_mono) simp_all
    then have le: "?cw / 100 * sw \<le> ?cw" by simp
    have "100 * (?cw / 100 * sw) = ?cw * sw" by simp
    moreover have "?cw * sw \<in> \<nat>" using cw add(1) by (rule Nats_mult)
    ultimately have n: "100 * (?cw / 100 * sw) \<in> \<nat>" by simp
    have e0: "0 \<le> ?cw / 100 * sw" using c0 add(2) by simp
    show ?thesis unfolding add(4) using e0 le n by blast
  qed
  then show "0 \<le> specContribution st d row c"
    and "specContribution st d row c \<le> columnWeightOf st c"
    and "100 * specContribution st d row c \<in> \<nat>" by simp_all
qed

lemma foldl_scoreStep_two_sided:
  assumes V: "\<forall>c m v w. objGet (subcategoryWeights st) c = Own m \<and> objGet m v = Own w
                \<longrightarrow> w \<in> \<nat> \<and> 0 < w \<and> w \<le> 100"
    and R: "set row \<inter> set objectPrototypeKeys = {}"
  shows "(\<And>c. c \<in> set cs \<Longrightarrow> c \<notin> set objectPrototypeKeys \<and> columnWeightOf st c \<in> \<nat>) \<Longrightarrow>
         E * ulp0 ^ (j + 2) \<le> t \<Longrightarrow> t \<le> E * ulp1 ^ (j + 2) \<Longrightarrow> 0 \<le> E \<Longrightarrow>
         \<exists>t'. foldl (scoreStep rt st d row) (Inr (Fin t)) cs = Inr (Fin t')
            \<and> (E + sum_list (map (specContribution st d row) cs)) * ulp0 ^ (j + length cs + 2) \<le> t'
            \<and> t' \<le> (E + sum_list (map (specContribution st d row) cs)) * ulp1 ^ (j + length cs + 2)"
proof (induction cs arbitrary: t E j)
  case Nil
  then show ?case by simp
next
  case (Cons c cs)
  have K: "c \<notin> set objectPrototypeKeys" and cn: "columnWeightOf st c \<in> \<nat>"
    using Cons.prems(1)[of c] by simp_all
  have cw: "0 \<le> columnWeightOf st c" using cn by (rule nats_nonneg)
  from scoreStep_two_sided[OF V K R cw Cons.prems(2,3,4), of rt d]
  obtain t1 where s: "scoreStep rt st d row (Inr (Fin t)) c = Inr (Fin t1)"
    and lo: "(E + specContribution st d row c) * ulp0 ^ (Suc j + 2) \<le> t1"
    and hi: "t1 \<le> (E + specContribution st d row c) * ulp1 ^ (Suc j + 2)"
    by blast
  have E': "0 \<le> E + specContribution st d row c"
    using Cons.prems(4) specContribution_bounds(1)[OF V K R cn, of d] by simp
  have "\<exists>t'. foldl (scoreStep rt st d row) (Inr (Fin t1)) cs = Inr (Fin t')
        \<and> (E + specContribution st d row c + sum_list (map (specContribution st d row) cs))
            * ulp0 ^ (Suc j + length cs + 2) \<le> t'
        \<and> t' \<le> (E + specContribution st d row c + sum_list (map (specContribution st d row) cs))
                 * ulp1 ^ (Suc j + length cs + 2)"
    using lo hi E' Cons.prems(1) by (intro Cons.IH) simp_all
  then show ?case by (simp add: s add.assoc)
qed

lemma specContribution_sum:
  assumes V: "\<forall>c m v w. objGet (subcategoryWeights st) c = Own m \<and> objGet m v = Own w
                \<longrightarrow> w \<in> \<nat> \<and> 0 < w \<and> w \<le> 100"
    and R: "set row \<inter> set objectPrototypeKeys = {}"
  shows "(\<And>c. c \<in> set cs \<Longrightarrow> c \<notin> set objectPrototypeKeys \<and> columnWeightOf st c \<in> \<nat>) \<Longrightarrow>
         0 \<le> sum_list (map (specContribution st d row) cs)
         \<and> sum_list (map (specContribution st d row) cs) \<le> sum_list (map (columnWeightOf st) cs)
         \<and> 100 * sum_list (map (specContribution st d row) cs) \<in> \<nat>"
proof (induction cs)
  case Nil
  then show ?case by simp
next
  case (Cons c cs)
  have K: "c \<notin> set objectPrototypeKeys" and cn: "columnWeightOf st c \<in> \<nat>"
    using Cons.prems[of c] by simp_all
  note b = specContribution_bounds[OF V K R cn, of d]
  have ih: "0 \<le> sum_list (map (specContribution st d row) cs)"
    "sum_list (map (specContribution st d row) cs) \<le> sum_list (map (columnWeightOf st) cs)"
    "100 * sum_list (map (specContribution st d row) cs) \<in> \<nat>"
    using Cons.IH Cons.prems by simp_all
  have "100 * specContribution st d row c + 100 * sum_list (map (specContribution st d row) cs) \<in> \<nat>"
    using b(3) ih(3) by (rule Nats_add)
  then have "100 * sum_list (map (specContribution st d row) (c # cs)) \<in> \<nat>"
    by (simp add: algebra_simps)
  then show ?case using b(1,2) ih(1,2) by simp
qed

text \<open>
  Apart from an assigned weight of 0 and from names of members of \<^verbatim>\<open>Object.prototype\<close>,
  the program computes the formula of the specification: when the column weights are
  natural numbers with a sum of at most 100, every assigned per-value weight is a natural
  number from 1 to 100, and no included column and no cell of the row is named like a
  member of \<^verbatim>\<open>Object.prototype\<close>, the computed score is the binary64 number nearest to
  the exactly computed, exactly rounded score. The rounding errors of the sum are too
  small to move it across a rounding boundary of \<open>round2\<close>.
\<close>

theorem calculateRowScore_formula_without_zero_weight:
  assumes W: "\<forall>c \<in> set (includedColumns st). columnWeightOf st c \<in> \<nat>"
    and S: "sum_list (map (columnWeightOf st) (includedColumns st)) \<le> 100"
    and V: "\<forall>c m v w. objGet (subcategoryWeights st) c = Own m \<and> objGet m v = Own w
                \<longrightarrow> w \<in> \<nat> \<and> 0 < w \<and> w \<le> 100"
    and L: "length (includedColumns st) < 2 ^ 32"
    and K: "set (includedColumns st) \<inter> set objectPrototypeKeys = {}"
    and R: "set row \<inter> set objectPrototypeKeys = {}"
  shows "calculateRowScore rt st d row = Inr (Fin (rd (specRowScore st d row)))"
proof -
  let ?cs = "includedColumns st"
  define n where "n = length ?cs"
  define E where "E = sum_list (map (specContribution st d row) ?cs)"
  have Wn: "\<And>c. c \<in> set ?cs \<Longrightarrow> c \<notin> set objectPrototypeKeys \<and> columnWeightOf st c \<in> \<nat>"
    using W K by auto
  have "\<exists>t'. foldl (scoreStep rt st d row) (Inr (Fin 0)) ?cs = Inr (Fin t')
        \<and> (0 + sum_list (map (specContribution st d row) ?cs)) * ulp0 ^ (0 + length ?cs + 2) \<le> t'
        \<and> t' \<le> (0 + sum_list (map (specContribution st d row) ?cs)) * ulp1 ^ (0 + length ?cs + 2)"
    using Wn by (intro foldl_scoreStep_two_sided[OF V R]) simp_all
  then obtain total where tot: "foldl (scoreStep rt st d row) (Inr (Fin 0)) ?cs = Inr (Fin total)"
    and t0: "E * ulp0 ^ (n + 2) \<le> total" and t1: "total \<le> E * ulp1 ^ (n + 2)"
    unfolding n_def E_def by auto
  from specContribution_sum[OF V R Wn, of ?cs d]
  have E0: "0 \<le> E" and E1: "E \<le> 100" and EN: "100 * E \<in> \<nat>"
    using S unfolding E_def by simp_all
  from EN obtain K :: nat where K: "100 * E = of_nat K" by (rule Nats_cases)
  define k :: rat where "k = of_nat K"
  have kE: "E * 100 = k" using K by (simp add: k_def mult.commute)
  have k0: "0 \<le> k" by (simp add: k_def)
  have k1: "k \<le> 10000" using E1 kE by simp
  have tot0: "0 \<le> total"
  proof -
    have "0 \<le> E * ulp0 ^ (n + 2)" using E0 ulp0_bounds(1) by simp
    then show ?thesis using t0 by simp
  qed
  define y where "y = jsMul total 100"
  have nb: "(of_nat (n + 3) :: rat) \<le> 4294967298"
  proof -
    have "n + 3 \<le> 4294967298" using L unfolding n_def by simp
    then have "(of_nat (n + 3) :: rat) \<le> of_nat 4294967298" by (simp only: of_nat_le_iff)
    then show ?thesis by simp
  qed
  have "y \<le> total * 100 * ulp1" unfolding y_def jsMul_def using tot0 by (intro rd_upper') simp
  also have "\<dots> \<le> (E * ulp1 ^ (n + 2)) * 100 * ulp1"
    using t1 ulp1_ge by (intro mult_right_mono) simp_all
  also have "\<dots> = k * ulp1 ^ (n + 3)" using kE by (simp add: eval_nat_numeral algebra_simps)
  also have "\<dots> \<le> k * (1 + 2 * of_nat (n + 3) * (1 / 2 ^ 53))"
    unfolding ulp1_def using nb k0 by (intro mult_left_mono pow_bound) simp_all
  also have "\<dots> = k + k * (2 * of_nat (n + 3) * (1 / 2 ^ 53))" by (simp add: algebra_simps)
  also have "\<dots> \<le> k + 10000 * (2 * 4294967298 * (1 / 2 ^ 53))"
    using nb k0 k1 by (intro add_left_mono mult_mono mult_right_mono mult_left_mono) simp_all
  also have "\<dots> < k + 1 / 2" by simp
  finally have y1: "y < k + 1 / 2" .
  have "k - 1 / 2 < k - 10000 * (4294967298 * (1 / 2 ^ 53))" by simp
  also have "\<dots> \<le> k - k * (of_nat (n + 3) * (1 / 2 ^ 53))"
    using nb k0 k1 by (intro diff_left_mono mult_mono mult_right_mono) simp_all
  also have "\<dots> = k * (1 - of_nat (n + 3) * (1 / 2 ^ 53))" by (simp add: algebra_simps)
  also have "\<dots> \<le> k * ulp0 ^ (n + 3)"
    unfolding ulp0_def using k0 by (intro mult_left_mono pow_lower) simp_all
  also have "\<dots> = (E * ulp0 ^ (n + 2)) * 100 * ulp0" using kE by (simp add: eval_nat_numeral algebra_simps)
  also have "\<dots> \<le> total * 100 * ulp0"
    using t0 ulp0_bounds(1) by (intro mult_right_mono) simp_all
  also have "\<dots> \<le> y" unfolding y_def jsMul_def using tot0 by (intro rd_lower) simp
  finally have y0: "k - 1 / 2 < y" .
  have fl: "\<lfloor>y + 1 / 2\<rfloor> = int K"
  proof (rule floor_unique)
    show "of_int (int K) \<le> y + 1 / 2" using y0 by (simp add: k_def)
    show "y + 1 / 2 < of_int (int K) + 1" using y1 by (simp add: k_def)
  qed
  have res: "calculateRowScore rt st d row = Inr (Fin (rd (k / 100)))"
    by (simp add: calculateRowScore_def tot y_def[symmetric] jsDiv_def jsMathRound_def fl k_def)
  have "\<lfloor>k + 1 / 2\<rfloor> = int K"
    by (rule floor_unique) (simp_all add: k_def)
  then have sp: "specRowScore st d row = k / 100"
    by (simp add: specRowScore_def round2_def E_def[symmetric] kE k_def)
  show ?thesis by (simp only: res sp)
qed

text \<open>
  Claim C1 against the code. In the example configuration the value \<^verbatim>\<open>Small\<close> of the
  column \<^verbatim>\<open>Size\<close> is assigned ``Not Important'', that is 0 points. For the row
  \<^verbatim>\<open>Beta, Small\<close> the claim's formula gives \<open>0.6 * 50 + 0.4 * 0 = 30\<close>, but
  \<open>calculateRowScore\<close> returns 50: \<^verbatim>\<open>|| 50\<close> replaces the assigned 0 by the default
  for unassigned values. For the row \<^verbatim>\<open>Acme, Large\<close>, whose value is assigned 100
  points, both agree on 70.
\<close>

theorem calculateRowScore_not_important_scores_50:
  "objGet (subcategoryWeights exampleScoring) ''Size'' = Own [(''Large'', 100), (''Small'', 0)]
   \<and> calculateRowScore rt exampleScoring exampleTable [''Beta'', ''Small''] = Inr (Fin 50)
   \<and> specRowScore exampleScoring exampleTable [''Beta'', ''Small''] = 30
   \<and> calculateRowScore rt exampleScoring exampleTable [''Acme'', ''Large''] = Inr (Fin 70)
   \<and> specRowScore exampleScoring exampleTable [''Acme'', ''Large''] = 70"
  by code_simp

section \<open>Sorting a column\<close>

lemma sorted_insertSorted:
  assumes asym: "\<And>a b. gt a b \<Longrightarrow> \<not> gt b a"
    and ntrans: "\<And>a b c. \<not> gt a b \<Longrightarrow> \<not> gt b c \<Longrightarrow> \<not> gt a c"
  shows "sorted_wrt (\<lambda>a b. \<not> gt a b) ys \<Longrightarrow> sorted_wrt (\<lambda>a b. \<not> gt a b) (insertSorted gt x ys)"
proof (induction ys)
  case Nil
  then show ?case by simp
next
  case (Cons y ys)
  show ?case
  proof (cases "gt x y")
    case True
    have "\<not> gt y z" if "z \<in> set (insertSorted gt x ys)" for z
      using that Cons.prems asym[OF True] by (auto simp: set_insertSorted)
    then show ?thesis using True Cons by simp
  next
    case False
    have "\<not> gt x z" if "z \<in> set (y # ys)" for z
      using that Cons.prems False ntrans[OF False] by auto
    then show ?thesis using False Cons.prems by simp
  qed
qed

lemma sorted_jsSort_gt:
  assumes asym: "\<And>a b. isPositive (compare a b) \<Longrightarrow> \<not> isPositive (compare b a)"
    and ntrans: "\<And>a b c. \<not> isPositive (compare a b) \<Longrightarrow> \<not> isPositive (compare b c)
                   \<Longrightarrow> \<not> isPositive (compare a c)"
  shows "sorted_wrt (\<lambda>a b. \<not> isPositive (compare a b)) (jsSort compare xs)"
proof (induction xs)
  case Nil
  then show ?case by (simp add: jsSort_def)
next
  case (Cons x xs)
  have "jsSort compare (x # xs) = insertSorted (\<lambda>a b. isPositive (compare a b)) x (jsSort compare xs)"
    by (simp add: jsSort_def)
  then show ?case
    using sorted_insertSorted[of "\<lambda>a b. isPositive (compare a b)" "jsSort compare xs" x, OF asym ntrans]
          Cons.IH
    by simp
qed

lemma filter_insertSorted_other:
  "\<not> P x \<Longrightarrow> filter P (insertSorted gt x ys) = filter P ys"
  by (induction ys) simp_all

lemma filter_insertSorted_equiv:
  assumes ntrans: "\<And>a b c. \<not> gt a b \<Longrightarrow> \<not> gt b c \<Longrightarrow> \<not> gt a c"
    and eq: "\<not> gt a x" "\<not> gt x a"
  shows "filter (\<lambda>b. \<not> gt a b \<and> \<not> gt b a) (insertSorted gt x ys)
         = x # filter (\<lambda>b. \<not> gt a b \<and> \<not> gt b a) ys"
proof (induction ys)
  case Nil
  then show ?case using eq by simp
next
  case (Cons y ys)
  show ?case
  proof (cases "gt x y")
    case True
    have "gt a y" using ntrans[OF eq(2), of y] True by blast
    then show ?thesis using True Cons by simp
  next
    case False
    then show ?thesis using eq by simp
  qed
qed

lemma stable_jsSort_gt:
  assumes ntrans: "\<And>a b c. \<not> isPositive (compare a b) \<Longrightarrow> \<not> isPositive (compare b c)
                   \<Longrightarrow> \<not> isPositive (compare a c)"
  shows "filter (\<lambda>b. \<not> isPositive (compare a b) \<and> \<not> isPositive (compare b a)) (jsSort compare xs)
         = filter (\<lambda>b. \<not> isPositive (compare a b) \<and> \<not> isPositive (compare b a)) xs"
proof (induction xs)
  case Nil
  then show ?case by (simp add: jsSort_def)
next
  case (Cons x xs)
  let ?gt = "\<lambda>a b. isPositive (compare a b)"
  have j: "jsSort compare (x # xs) = insertSorted ?gt x (jsSort compare xs)"
    by (simp add: jsSort_def)
  show ?case
  proof (cases "\<not> ?gt a x \<and> \<not> ?gt x a")
    case True
    then show ?thesis unfolding j
      using filter_insertSorted_equiv[of ?gt a x "jsSort compare xs", OF ntrans] Cons.IH by simp
  next
    case False
    then show ?thesis unfolding j
      using filter_insertSorted_other[of "\<lambda>b. \<not> ?gt a b \<and> \<not> ?gt b a" x ?gt "jsSort compare xs"] Cons.IH
      by auto
  qed
qed

text \<open>A comparator that orders by a key, under a strict total order of the keys.\<close>

lemma jsSort_by_key:
  assumes gt: "\<And>a b. isPositive (compare a b) = lt (key b) (key a)"
    and irrefl: "\<And>a. \<not> lt (key a) (key a)"
    and trans: "\<And>a b c. lt (key a) (key b) \<Longrightarrow> lt (key b) (key c) \<Longrightarrow> lt (key a) (key c)"
    and total: "\<And>a b. key a \<noteq> key b \<Longrightarrow> lt (key a) (key b) \<or> lt (key b) (key a)"
  shows "sorted_wrt (\<lambda>a b. \<not> lt (key b) (key a)) (jsSort compare xs)"
    and "filter (\<lambda>b. key b = k) (jsSort compare xs) = filter (\<lambda>b. key b = k) xs"
proof -
  have asym: "isPositive (compare a b) \<Longrightarrow> \<not> isPositive (compare b a)" for a b
    unfolding gt using irrefl trans by blast
  have ntrans: "\<not> isPositive (compare a b) \<Longrightarrow> \<not> isPositive (compare b c)
                   \<Longrightarrow> \<not> isPositive (compare a c)" for a b c
    unfolding gt using trans total by metis
  show "sorted_wrt (\<lambda>a b. \<not> lt (key b) (key a)) (jsSort compare xs)"
    using sorted_jsSort_gt[of compare xs, OF asym ntrans] unfolding gt .
  have equiv: "(\<not> isPositive (compare a b) \<and> \<not> isPositive (compare b a)) = (key b = key a)" for a b
    unfolding gt using irrefl total by metis
  show "filter (\<lambda>b. key b = k) (jsSort compare xs) = filter (\<lambda>b. key b = k) xs"
  proof (cases "\<exists>a \<in> set xs. key a = k")
    case True
    then obtain a where a: "key a = k" by blast
    show ?thesis
      using stable_jsSort_gt[of compare a xs, OF ntrans] unfolding equiv a .
  next
    case False
    then have "filter (\<lambda>b. key b = k) xs = []" by (simp add: filter_empty_conv)
    moreover have "filter (\<lambda>b. key b = k) (jsSort compare xs) = []"
      using False by (simp add: filter_empty_conv set_jsSort)
    ultimately show ?thesis by simp
  qed
qed

lemma rd_minus: "rd (- x) = - rd x"
  by (simp add: rd_def Let_def)

lemma rd_pos_iff: "0 < rd x \<longleftrightarrow> 0 < x"
proof (cases "0 < x")
  case True
  then show ?thesis using rd_pos by simp
next
  case False
  then have "0 \<le> - x" by simp
  then have "0 \<le> rd (- x)" by (rule rd_nonneg)
  then show ?thesis using False by (simp add: rd_minus)
qed

lemma orZero_not_NaN: "orZero v \<noteq> NaN"
  by (cases v) simp_all

lemma isPositive_jsnumSub:
  "x \<noteq> NaN \<Longrightarrow> y \<noteq> NaN \<Longrightarrow> isPositive (jsnumSub x y) = jsnumLess y x"
  by (cases x; cases y) (simp_all add: jsSub_def rd_pos_iff)

lemma jsnumLess_irrefl: "\<not> jsnumLess x x"
  by (cases x) simp_all

lemma jsnumLess_trans: "jsnumLess x y \<Longrightarrow> jsnumLess y z \<Longrightarrow> jsnumLess x z"
  by (cases x; cases y; cases z) simp_all

lemma jsnumLess_total: "x \<noteq> NaN \<Longrightarrow> y \<noteq> NaN \<Longrightarrow> x \<noteq> y \<Longrightarrow> jsnumLess x y \<or> jsnumLess y x"
  by (cases x; cases y) auto

lemma strLess_irrefl: "\<not> strLess s s"
  by (induction s) simp_all

lemma strLess_trans: "strLess a b \<Longrightarrow> strLess b c \<Longrightarrow> strLess a c"
proof (induction a b arbitrary: c rule: strLess.induct)
  case 1
  then show ?case by simp
next
  case (2 y ys)
  then show ?case by (cases c) simp_all
next
  case (3 x xs)
  then show ?case by simp
next
  case (4 x xs y ys)
  then show ?case by (cases c) auto
qed

lemma strLess_total: "a \<noteq> b \<Longrightarrow> strLess a b \<or> strLess b a"
proof (induction a b rule: strLess.induct)
  case (4 x xs y ys)
  show ?case
  proof (cases "x = y")
    case True
    then show ?thesis using 4 by auto
  next
    case False
    then have "(of_char x :: nat) < of_char y \<or> (of_char y :: nat) < of_char x"
      by (metis of_char_eq_iff nat_neq_iff)
    then show ?thesis by auto
  qed
qed simp_all


lemma c07: "rd (7/10) = 3152519739159347 / 4503599627370496"
  by code_simp

lemma numeric_threshold:
  assumes n: "n < 2 ^ 32" and kn: "k \<le> n"
  shows "7 * n < 10 * k \<Longrightarrow> jsMul (of_nat n) (rd (7/10)) < of_nat k"
    and "10 * k < 7 * n \<Longrightarrow> \<not> jsMul (of_nat n) (rd (7/10)) < of_nat k"
proof -
  define N :: rat where "N = of_nat n"
  define K :: rat where "K = of_nat k"
  have N0: "0 \<le> N" unfolding N_def by simp
  have "(of_nat n :: rat) < of_nat (2 ^ 32)" using n by (simp only: of_nat_less_iff)
  then have N1: "N < 4294967296" unfolding N_def by simp
  have "(of_nat k :: rat) \<le> of_nat n" using kn by (simp only: of_nat_le_iff)
  then have KN: "K \<le> N" unfolding N_def K_def .
  have x0: "0 \<le> N * (3152519739159347 / 4503599627370496)" using N0 by simp
  have kl: "int k < 4294967296" using n kn by simp
  {
    assume "7 * n < 10 * k"
    then have "7 * n + 1 \<le> 10 * k" by simp
    then have "(of_nat (7 * n + 1) :: rat) \<le> of_nat (10 * k)" by (simp only: of_nat_le_iff)
    then have a: "7 * N + 1 \<le> 10 * K" unfolding N_def K_def by simp
    have kpos: "0 < k" using \<open>7 * n < 10 * k\<close> by simp
    have le: "N * (3152519739159347 / 4503599627370496) \<le> K - 1 / 16"
      using a N0 by simp
    have m: "0 < 16 * int k - 1" "16 * int k - 1 < 2 ^ 53" using kpos kl by simp_all
    have e: "of_int (16 * int k - 1) * 2 powi (-4) = K - 1 / 16"
      unfolding K_def by (simp add: power_int_minus field_simps)
    have r: "rd (K - 1 / 16) = K - 1 / 16"
      using rd_repr[OF m, of "-4"] unfolding e .
    have "rd (N * (3152519739159347 / 4503599627370496)) \<le> rd (K - 1 / 16)"
      using x0 le by (rule rd_mono)
    then have "rd (N * (3152519739159347 / 4503599627370496)) < K" unfolding r by simp
    then show "jsMul (of_nat n) (rd (7/10)) < of_nat k"
      unfolding jsMul_def c07 N_def K_def .
  }
  {
    assume "10 * k < 7 * n"
    then have "10 * k + 1 \<le> 7 * n" by simp
    then have "(of_nat (10 * k + 1) :: rat) \<le> of_nat (7 * n)" by (simp only: of_nat_le_iff)
    then have a: "10 * K + 1 \<le> 7 * N" unfolding N_def K_def by simp
    have K0: "0 \<le> K" unfolding K_def by simp
    have le: "K + 1 / 16 \<le> N * (3152519739159347 / 4503599627370496)"
      using a N1 by simp
    have m: "0 < 16 * int k + 1" "16 * int k + 1 < 2 ^ 53" using kl by simp_all
    have e: "of_int (16 * int k + 1) * 2 powi (-4) = K + 1 / 16"
      unfolding K_def by (simp add: power_int_minus field_simps)
    have r: "rd (K + 1 / 16) = K + 1 / 16"
      using rd_repr[OF m, of "-4"] unfolding e .
    have "rd (K + 1 / 16) \<le> rd (N * (3152519739159347 / 4503599627370496))"
      using le K0 by (intro rd_mono) simp_all
    then have "\<not> rd (N * (3152519739159347 / 4503599627370496)) < K" unfolding r by simp
    then show "\<not> jsMul (of_nat n) (rd (7/10)) < of_nat k"
      unfolding jsMul_def c07 N_def K_def .
  }
qed


lemma sortCompare_numeric:
  "isPositive (sortCompare rt True c dir a b)
     = (if dir = Asc then jsnumLess (numericKey rt c b) (numericKey rt c a)
        else jsnumLess (numericKey rt c a) (numericKey rt c b))"
  by (simp add: sortCompare_def Let_def numericKey_def isPositive_jsnumSub orZero_not_NaN)

lemma sortCompare_string:
  "isPositive (sortCompare rt False c dir a b)
     = (if dir = Asc then strLess (stringKey rt c b) (stringKey rt c a)
        else strLess (stringKey rt c a) (stringKey rt c b))"
  using strLess_trans[of "stringKey rt c a" "stringKey rt c b" "stringKey rt c a"]
        strLess_irrefl[of "stringKey rt c a"]
  by (auto simp: sortCompare_def Let_def stringKey_def)

lemma numericKey_not_NaN: "numericKey rt c row \<noteq> NaN"
  by (simp add: numericKey_def orZero_not_NaN)

lemma jsSort_numeric:
  "sorted_wrt (\<lambda>a b. if dir = Asc then \<not> jsnumLess (numericKey rt c b) (numericKey rt c a)
                      else \<not> jsnumLess (numericKey rt c a) (numericKey rt c b))
              (jsSort (sortCompare rt True c dir) xs)
   \<and> filter (\<lambda>r. numericKey rt c r = k) (jsSort (sortCompare rt True c dir) xs)
       = filter (\<lambda>r. numericKey rt c r = k) xs"
proof (cases "dir = Asc")
  case True
  have gt: "\<And>a b. isPositive (sortCompare rt True c dir a b) = jsnumLess (numericKey rt c b) (numericKey rt c a)"
    using True by (simp add: sortCompare_numeric)
  have irr: "\<And>a. \<not> jsnumLess (numericKey rt c a) (numericKey rt c a)" by (rule jsnumLess_irrefl)
  have tr: "\<And>a b x. jsnumLess (numericKey rt c a) (numericKey rt c b) \<Longrightarrow> jsnumLess (numericKey rt c b) (numericKey rt c x)
              \<Longrightarrow> jsnumLess (numericKey rt c a) (numericKey rt c x)"
    by (rule jsnumLess_trans)
  have tot: "\<And>a b. numericKey rt c a \<noteq> numericKey rt c b \<Longrightarrow> jsnumLess (numericKey rt c a) (numericKey rt c b) \<or> jsnumLess (numericKey rt c b) (numericKey rt c a)"
    using jsnumLess_total numericKey_not_NaN by blast
  note r = jsSort_by_key[where compare = "sortCompare rt True c dir" and lt = jsnumLess
                           and key = "numericKey rt c", OF gt irr tr tot]
  show ?thesis using r(1)[where xs = xs] r(2)[where k = k and xs = xs] True by simp
next
  case False
  have gt: "\<And>a b. isPositive (sortCompare rt True c dir a b)
              = (\<lambda>x y. jsnumLess y x) (numericKey rt c b) (numericKey rt c a)"
    using False by (simp add: sortCompare_numeric)
  have irr: "\<And>a. \<not> (\<lambda>x y. jsnumLess y x) (numericKey rt c a) (numericKey rt c a)" by (simp add: jsnumLess_irrefl)
  have tr: "\<And>a b x. (\<lambda>x y. jsnumLess y x) (numericKey rt c a) (numericKey rt c b) \<Longrightarrow> (\<lambda>x y. jsnumLess y x) (numericKey rt c b) (numericKey rt c x)
              \<Longrightarrow> (\<lambda>x y. jsnumLess y x) (numericKey rt c a) (numericKey rt c x)"
    using jsnumLess_trans by blast
  have tot: "\<And>a b. numericKey rt c a \<noteq> numericKey rt c b \<Longrightarrow> (\<lambda>x y. jsnumLess y x) (numericKey rt c a) (numericKey rt c b)
               \<or> (\<lambda>x y. jsnumLess y x) (numericKey rt c b) (numericKey rt c a)"
    using jsnumLess_total numericKey_not_NaN by blast
  note r = jsSort_by_key[where compare = "sortCompare rt True c dir" and lt = "\<lambda>x y. jsnumLess y x"
                           and key = "numericKey rt c", OF gt irr tr tot]
  show ?thesis using r(1)[where xs = xs] r(2)[where k = k and xs = xs] False by simp
qed

lemma jsSort_string:
  "sorted_wrt (\<lambda>a b. if dir = Asc then \<not> strLess (stringKey rt c b) (stringKey rt c a)
                      else \<not> strLess (stringKey rt c a) (stringKey rt c b))
              (jsSort (sortCompare rt False c dir) xs)
   \<and> filter (\<lambda>r. stringKey rt c r = k) (jsSort (sortCompare rt False c dir) xs)
       = filter (\<lambda>r. stringKey rt c r = k) xs"
proof (cases "dir = Asc")
  case True
  have gt: "\<And>a b. isPositive (sortCompare rt False c dir a b) = strLess (stringKey rt c b) (stringKey rt c a)"
    using True by (simp add: sortCompare_string)
  have irr: "\<And>a. \<not> strLess (stringKey rt c a) (stringKey rt c a)" by (rule strLess_irrefl)
  have tr: "\<And>a b x. strLess (stringKey rt c a) (stringKey rt c b) \<Longrightarrow> strLess (stringKey rt c b) (stringKey rt c x)
              \<Longrightarrow> strLess (stringKey rt c a) (stringKey rt c x)"
    by (rule strLess_trans)
  have tot: "\<And>a b. stringKey rt c a \<noteq> stringKey rt c b \<Longrightarrow> strLess (stringKey rt c a) (stringKey rt c b) \<or> strLess (stringKey rt c b) (stringKey rt c a)"
    using strLess_total by blast
  note r = jsSort_by_key[where compare = "sortCompare rt False c dir" and lt = strLess
                           and key = "stringKey rt c", OF gt irr tr tot]
  show ?thesis using r(1)[where xs = xs] r(2)[where k = k and xs = xs] True by simp
next
  case False
  have gt: "\<And>a b. isPositive (sortCompare rt False c dir a b)
              = (\<lambda>x y. strLess y x) (stringKey rt c b) (stringKey rt c a)"
    using False by (simp add: sortCompare_string)
  have irr: "\<And>a. \<not> (\<lambda>x y. strLess y x) (stringKey rt c a) (stringKey rt c a)" by (simp add: strLess_irrefl)
  have tr: "\<And>a b x. (\<lambda>x y. strLess y x) (stringKey rt c a) (stringKey rt c b) \<Longrightarrow> (\<lambda>x y. strLess y x) (stringKey rt c b) (stringKey rt c x)
              \<Longrightarrow> (\<lambda>x y. strLess y x) (stringKey rt c a) (stringKey rt c x)"
    using strLess_trans by blast
  have tot: "\<And>a b. stringKey rt c a \<noteq> stringKey rt c b \<Longrightarrow> (\<lambda>x y. strLess y x) (stringKey rt c a) (stringKey rt c b)
               \<or> (\<lambda>x y. strLess y x) (stringKey rt c b) (stringKey rt c a)"
    using strLess_total by blast
  note r = jsSort_by_key[where compare = "sortCompare rt False c dir" and lt = "\<lambda>x y. strLess y x"
                           and key = "stringKey rt c", OF gt irr tr tot]
  show ?thesis using r(1)[where xs = xs] r(2)[where k = k and xs = xs] False by simp
qed


lemma isNumericColumn_threshold:
  assumes "length (rows d) < 2 ^ 32"
  shows "7 * length (columnValues d c) < 10 * length (numericValues rt (columnValues d c))
           \<Longrightarrow> isNumericColumn rt d c"
    and "10 * length (numericValues rt (columnValues d c)) < 7 * length (columnValues d c)
           \<Longrightarrow> \<not> isNumericColumn rt d c"
    and "columnValues d c = [] \<Longrightarrow> \<not> isNumericColumn rt d c"
proof -
  let ?n = "length (columnValues d c)" and ?k = "length (numericValues rt (columnValues d c))"
  have "?n \<le> length (map (\<lambda>row. nthOpt row c) (rows d))"
    unfolding columnValues_def by (rule length_filter_le)
  then have n: "?n < 2 ^ 32" using assms by simp
  have k: "?k \<le> ?n" unfolding numericValues_def by (rule length_filter_le)
  show "isNumericColumn rt d c" if "7 * ?n < 10 * ?k"
  proof -
    have "?n \<noteq> 0" using that k by linarith
    then show ?thesis
      using numeric_threshold(1)[OF n k that] by (simp add: isNumericColumn_def Let_def)
  qed
  show "\<not> isNumericColumn rt d c" if "10 * ?k < 7 * ?n"
    using numeric_threshold(2)[OF n k that] by (simp add: isNumericColumn_def Let_def)
  show "\<not> isNumericColumn rt d c" if "columnValues d c = []"
    using that by (simp add: isNumericColumn_def)
qed

text \<open>
  Claim C4, amended. \<open>sortColumn\<close> leaves the headers and the widths alone and permutes
  the rows. The column counts as numeric when strictly more than 70 percent of its
  non-blank cells are numbers for both \<^verbatim>\<open>Number\<close> and \<^verbatim>\<open>parseFloat\<close>, and as not
  numeric when fewer than 70 percent are, or when it has no non-blank cell (for tables of
  fewer than \<open>2^32\<close> rows, the limit of an array; what happens at exactly 70 percent is
  not stated here). The rows of a numeric column are sorted by \<^verbatim>\<open>parseFloat\<close> of the
  cell, with \<^verbatim>\<open>NaN\<close> and a missing cell counting as 0, those of any other column by the
  lower-cased cell; ascending or descending as asked, and rows with equal keys keep their
  original relative order.
\<close>

theorem sortColumn_stable_by_key:
  "headers (data (sortColumn rt st c dir)) = headers (data st)
   \<and> columnWidths (sortColumn rt st c dir) = columnWidths st
   \<and> mset (rows (data (sortColumn rt st c dir))) = mset (rows (data st))
   \<and> (isNumericColumn rt (data st) c \<longrightarrow>
        sorted_wrt (\<lambda>a b. if dir = Asc then \<not> jsnumLess (numericKey rt c b) (numericKey rt c a)
                            else \<not> jsnumLess (numericKey rt c a) (numericKey rt c b))
                   (rows (data (sortColumn rt st c dir)))
        \<and> (\<forall>k. filter (\<lambda>r. numericKey rt c r = k) (rows (data (sortColumn rt st c dir)))
                 = filter (\<lambda>r. numericKey rt c r = k) (rows (data st))))
   \<and> (\<not> isNumericColumn rt (data st) c \<longrightarrow>
        sorted_wrt (\<lambda>a b. if dir = Asc then \<not> strLess (stringKey rt c b) (stringKey rt c a)
                            else \<not> strLess (stringKey rt c a) (stringKey rt c b))
                   (rows (data (sortColumn rt st c dir)))
        \<and> (\<forall>k. filter (\<lambda>r. stringKey rt c r = k) (rows (data (sortColumn rt st c dir)))
                 = filter (\<lambda>r. stringKey rt c r = k) (rows (data st))))
   \<and> (columnValues (data st) c = [] \<longrightarrow> \<not> isNumericColumn rt (data st) c)
   \<and> (length (rows (data st)) < 2 ^ 32 \<longrightarrow>
        (7 * length (columnValues (data st) c) < 10 * length (numericValues rt (columnValues (data st) c))
           \<longrightarrow> isNumericColumn rt (data st) c)
        \<and> (10 * length (numericValues rt (columnValues (data st) c)) < 7 * length (columnValues (data st) c)
           \<longrightarrow> \<not> isNumericColumn rt (data st) c))"
proof -
  have r: "rows (data (sortColumn rt st c dir))
           = jsSort (sortCompare rt (isNumericColumn rt (data st) c) c dir) (rows (data st))"
    by (simp add: sortColumn_def Let_def)
  have h: "headers (data (sortColumn rt st c dir)) = headers (data st)"
    and w: "columnWidths (sortColumn rt st c dir) = columnWidths st"
    by (simp_all add: sortColumn_def Let_def)
  have m: "mset (rows (data (sortColumn rt st c dir))) = mset (rows (data st))"
    unfolding r by (rule mset_jsSort)
  have n: "isNumericColumn rt (data st) c \<longrightarrow>
        sorted_wrt (\<lambda>a b. if dir = Asc then \<not> jsnumLess (numericKey rt c b) (numericKey rt c a)
                            else \<not> jsnumLess (numericKey rt c a) (numericKey rt c b))
                   (rows (data (sortColumn rt st c dir)))
        \<and> (\<forall>k. filter (\<lambda>r. numericKey rt c r = k) (rows (data (sortColumn rt st c dir)))
                 = filter (\<lambda>r. numericKey rt c r = k) (rows (data st)))"
    unfolding r using jsSort_numeric[where dir = dir and rt = rt and c = c and xs = "rows (data st)"] by simp
  have s: "\<not> isNumericColumn rt (data st) c \<longrightarrow>
        sorted_wrt (\<lambda>a b. if dir = Asc then \<not> strLess (stringKey rt c b) (stringKey rt c a)
                            else \<not> strLess (stringKey rt c a) (stringKey rt c b))
                   (rows (data (sortColumn rt st c dir)))
        \<and> (\<forall>k. filter (\<lambda>r. stringKey rt c r = k) (rows (data (sortColumn rt st c dir)))
                 = filter (\<lambda>r. stringKey rt c r = k) (rows (data st)))"
    unfolding r using jsSort_string[where dir = dir and rt = rt and c = c and xs = "rows (data st)"] by simp
  have e: "columnValues (data st) c = [] \<longrightarrow> \<not> isNumericColumn rt (data st) c"
    by (simp add: isNumericColumn_def)
  have t: "length (rows (data st)) < 2 ^ 32 \<longrightarrow>
        (7 * length (columnValues (data st) c) < 10 * length (numericValues rt (columnValues (data st) c))
           \<longrightarrow> isNumericColumn rt (data st) c)
        \<and> (10 * length (numericValues rt (columnValues (data st) c)) < 7 * length (columnValues (data st) c)
           \<longrightarrow> \<not> isNumericColumn rt (data st) c)"
    using isNumericColumn_threshold(1,2)[where d = "data st" and c = c and rt = rt] by blast
  from h w m n s e t show ?thesis by blast
qed

lemma unitTable_values:
  "columnValues unitTable 0 = [Some ''1'', Some ''2'', Some ''3'', Some ''10kg'']"
  "numericValues refRuntime [Some ''1'', Some ''2'', Some ''3'', Some ''10kg'']
     = [Some ''1'', Some ''2'', Some ''3'']"
  by code_simp+

lemma unitsTable_values:
  "columnValues unitsTable 0 = [Some ''12kg'', Some ''5kg'', Some ''7kg'']"
  "numericValues refRuntime [Some ''12kg'', Some ''5kg'', Some ''7kg''] = []"
  by code_simp+

theorem sortColumn_stable_by_key_witness:
  "length (rows (data (stateOf unitTable))) < 2 ^ 32
   \<and> 7 * length (columnValues (data (stateOf unitTable)) 0)
       < 10 * length (numericValues refRuntime (columnValues (data (stateOf unitTable)) 0))
   \<and> isNumericColumn refRuntime (data (stateOf unitTable)) 0
   \<and> rows (data (sortColumn refRuntime (stateOf unitTable) 0 Asc))
       = [[''1''], [''2''], [''3''], [''10kg'']]
   \<and> sorted_wrt (\<lambda>a b. \<not> jsnumLess (numericKey refRuntime 0 b) (numericKey refRuntime 0 a))
                 (rows (data (sortColumn refRuntime (stateOf unitTable) 0 Asc)))
   \<and> 10 * length (numericValues refRuntime (columnValues (data (stateOf unitsTable)) 0))
       < 7 * length (columnValues (data (stateOf unitsTable)) 0)
   \<and> \<not> isNumericColumn refRuntime (data (stateOf unitsTable)) 0
   \<and> sorted_wrt (\<lambda>a b. \<not> strLess (stringKey refRuntime 0 b) (stringKey refRuntime 0 a))
                 (rows (data (sortColumn refRuntime (stateOf unitsTable) 0 Asc)))"
proof -
  have d1: "data (stateOf unitTable) = unitTable" and d2: "data (stateOf unitsTable) = unitsTable"
    by (simp_all add: stateOf_def)
  have l1: "length (rows (data (stateOf unitTable))) < 2 ^ 32"
    and l2: "length (rows (data (stateOf unitsTable))) < 2 ^ 32"
    by (simp_all add: stateOf_def unitTable_def unitsTable_def)
  have c1: "7 * length (columnValues (data (stateOf unitTable)) 0)
       < 10 * length (numericValues refRuntime (columnValues (data (stateOf unitTable)) 0))"
    unfolding d1 unitTable_values by simp
  have c2: "10 * length (numericValues refRuntime (columnValues (data (stateOf unitsTable)) 0))
       < 7 * length (columnValues (data (stateOf unitsTable)) 0)"
    unfolding d2 unitsTable_values by simp
  note t1 = sortColumn_stable_by_key[of refRuntime "stateOf unitTable" 0 Asc]
  note t2 = sortColumn_stable_by_key[of refRuntime "stateOf unitsTable" 0 Asc]
  from t1 l1 c1 have n1: "isNumericColumn refRuntime (data (stateOf unitTable)) 0" by blast
  with t1 have s1: "sorted_wrt (\<lambda>a b. \<not> jsnumLess (numericKey refRuntime 0 b) (numericKey refRuntime 0 a))
                 (rows (data (sortColumn refRuntime (stateOf unitTable) 0 Asc)))" by simp
  from t2 l2 c2 have n2: "\<not> isNumericColumn refRuntime (data (stateOf unitsTable)) 0" by blast
  with t2 have s2: "sorted_wrt (\<lambda>a b. \<not> strLess (stringKey refRuntime 0 b) (stringKey refRuntime 0 a))
                 (rows (data (sortColumn refRuntime (stateOf unitsTable) 0 Asc)))" by simp
  have e: "rows (data (sortColumn refRuntime (stateOf unitTable) 0 Asc))
       = [[''1''], [''2''], [''3''], [''10kg'']]"
    by code_simp
  from l1 c1 n1 e s1 c2 n2 s2 show ?thesis by blast
qed

lemma seventyPercent_code: "isNumericColumn refRuntime seventyPercentTable 0"
proof -
  have nb: "nonBlank (Some ''1'')" "nonBlank (Some ''k'')" by code_simp+
  have cell: "nthOpt [''1''] 0 = Some ''1''" "nthOpt [''k''] 0 = Some ''k''"
    by (simp_all add: nthOpt_def)
  have vals: "columnValues seventyPercentTable 0 = replicate 63 (Some ''1'') @ replicate 27 (Some ''k'')"
    by (simp add: columnValues_def seventyPercentTable_def cell nb)
  have num: "\<not> isNaN (refNumber ''1'') \<and> \<not> isNaN (refParseFloat ''1'')" "isNaN (refNumber ''k'')"
    by code_simp+
  have nums: "numericValues refRuntime (replicate 63 (Some ''1'') @ replicate 27 (Some ''k''))
              = replicate 63 (Some ''1'')"
    using num by (simp add: numericValues_def refRuntime_def)
  have thr: "jsMul 90 (rd (7/10)) < 63" by code_simp
  show ?thesis using thr by (simp add: isNumericColumn_def Let_def vals nums)
qed

lemma seventyPercent_spec:
  assumes "parse ''1'' \<noteq> None" "parse ''k'' = None"
  shows "\<not> specIsNumeric parse seventyPercentTable 0"
proof -
  have nb: "nonBlank (Some ''1'')" "nonBlank (Some ''k'')" by code_simp+
  have cell: "cellOrEmpty [''1''] 0 = ''1''" "cellOrEmpty [''k''] 0 = ''k''"
    by (simp_all add: cellOrEmpty_def nthOpt_def)
  show ?thesis
    using assms by (simp add: specIsNumeric_def Let_def seventyPercentTable_def cell nb)
qed

text \<open>
  Claim C4, as stated, fails for either reading of ``parses as a floating-point number''.
  If a cell parses when the whole cell is a number, the claim sorts \<^verbatim>\<open>10kg\<close> as 0,
  before 1, 2 and 3; the program sorts it as 10, after them. If a cell parses when it
  starts with a number, the claim takes the column \<^verbatim>\<open>12kg, 5kg, 7kg\<close> for numeric and
  sorts it 5, 7, 12; the program takes it for text and leaves it in the order of the
  strings. And for both readings, a column of 90 non-blank cells of which 63, exactly 70
  percent, are numbers is not numeric for the claim, but numeric for the program: the
  binary64 product \<^verbatim>\<open>90 * 0.7\<close> is slightly less than 63.
\<close>

theorem sortColumn_claim_counterexample:
  "rows (data (sortColumn refRuntime (stateOf unitTable) 0 Asc)) = [[''1''], [''2''], [''3''], [''10kg'']]
   \<and> specSortByColumn parseWhole refToLowerCase unitTable 0 Asc = [[''10kg''], [''1''], [''2''], [''3'']]
   \<and> rows (data (sortColumn refRuntime (stateOf unitsTable) 0 Asc)) = [[''12kg''], [''5kg''], [''7kg'']]
   \<and> specSortByColumn parsePrefix refToLowerCase unitsTable 0 Asc = [[''5kg''], [''7kg''], [''12kg'']]
   \<and> isNumericColumn refRuntime seventyPercentTable 0
   \<and> \<not> specIsNumeric parseWhole seventyPercentTable 0
   \<and> \<not> specIsNumeric parsePrefix seventyPercentTable 0"
proof -
  have 1: "rows (data (sortColumn refRuntime (stateOf unitTable) 0 Asc)) = [[''1''], [''2''], [''3''], [''10kg'']]"
    by code_simp
  have 2: "specSortByColumn parseWhole refToLowerCase unitTable 0 Asc = [[''10kg''], [''1''], [''2''], [''3'']]"
    by code_simp
  have 3: "rows (data (sortColumn refRuntime (stateOf unitsTable) 0 Asc)) = [[''12kg''], [''5kg''], [''7kg'']]"
    by code_simp
  have 4: "specSortByColumn parsePrefix refToLowerCase unitsTable 0 Asc = [[''5kg''], [''7kg''], [''12kg'']]"
    by code_simp
  have p: "parseWhole ''1'' \<noteq> None" "parseWhole ''k'' = None"
          "parsePrefix ''1'' \<noteq> None" "parsePrefix ''k'' = None"
    by code_simp+
  from 1 2 3 4 seventyPercent_code seventyPercent_spec[OF p(1,2)] seventyPercent_spec[OF p(3,4)]
  show ?thesis by blast
qed

end
